theory Spec2Isabelle
  imports Main "HOL-Library.List_Lexorder"
begin

section \<open>Strings\<close>

text \<open>
  A JavaScript string is a sequence of UTF-16 code units. The regular expressions of
  \<^verbatim>\<open>scripts/sync-stats.js\<close> have no \<^verbatim>\<open>u\<close> flag, so they work on code units, and
  so does this model: a string is a list of code units, each a natural number.
  Text read with \<^verbatim>\<open>readFileSync(_, 'utf-8')\<close> is taken as already decoded.
\<close>

type_synonym jsstr = "nat list"

definition ascii :: "string \<Rightarrow> jsstr" where
  "ascii s = map of_char s"

text \<open>The white space of \<^verbatim>\<open>\s\<close> and of \<^verbatim>\<open>String.prototype.trim\<close>, and the line
  terminators, which \<^verbatim>\<open>.\<close> does not match and at which \<^verbatim>\<open>^\<close> and \<^verbatim>\<open>$\<close> match under
  the \<^verbatim>\<open>m\<close> flag.\<close>

definition is_line_term :: "nat \<Rightarrow> bool" where
  "is_line_term c = (c = 10 \<or> c = 13 \<or> c = 8232 \<or> c = 8233)"

definition is_space :: "nat \<Rightarrow> bool" where
  "is_space c = (c = 9 \<or> c = 10 \<or> c = 11 \<or> c = 12 \<or> c = 13 \<or> c = 32 \<or> c = 160
     \<or> c = 5760 \<or> (8192 \<le> c \<and> c \<le> 8202) \<or> c = 8232 \<or> c = 8233 \<or> c = 8239
     \<or> c = 8287 \<or> c = 12288 \<or> c = 65279)"

definition is_digit :: "nat \<Rightarrow> bool" where
  "is_digit c = (48 \<le> c \<and> c \<le> 57)"

definition is_lower :: "nat \<Rightarrow> bool" where
  "is_lower c = (97 \<le> c \<and> c \<le> 122)"

definition is_dot :: "nat \<Rightarrow> bool" where
  "is_dot c = (\<not> is_line_term c)"

definition is_any :: "nat \<Rightarrow> bool" where
  "is_any c = True"

definition is_quote :: "nat \<Rightarrow> bool" where
  "is_quote c = (c = 34 \<or> c = 39)"

definition trim :: "jsstr \<Rightarrow> jsstr" where
  "trim s = rev (dropWhile is_space (rev (dropWhile is_space s)))"

definition startsWith :: "jsstr \<Rightarrow> jsstr \<Rightarrow> bool" where
  "startsWith s p = (take (length p) s = p)"

definition endsWith :: "jsstr \<Rightarrow> jsstr \<Rightarrow> bool" where
  "endsWith s p = (length p \<le> length s \<and> drop (length s - length p) s = p)"

text \<open>\<^verbatim>\<open>s.split(sep)\<close> for a separator of one code unit.\<close>

fun split_on :: "nat \<Rightarrow> jsstr \<Rightarrow> jsstr list" where
  "split_on sep [] = [[]]"
| "split_on sep (c # cs) =
     (if c = sep then [] # split_on sep cs
      else (case split_on sep cs of [] \<Rightarrow> [[c]] | l # ls \<Rightarrow> (c # l) # ls))"

text \<open>Decimal digits of a number (a template literal \<^verbatim>\<open>${n}\<close> for a count), and the
  value \<^verbatim>\<open>parseInt\<close> gives a string of decimal digits. Numbers are the naturals: counts
  are array lengths, and on them JavaScript's numbers are exact.\<close>

fun digits_of :: "nat \<Rightarrow> jsstr" where
  "digits_of n = (if n < 10 then [48 + n] else digits_of (n div 10) @ [48 + n mod 10])"

declare digits_of.simps [simp del]

definition parseInt :: "jsstr \<Rightarrow> nat" where
  "parseInt ds = foldl (\<lambda>a c. 10 * a + (c - 48)) 0 ds"

section \<open>Regular expressions\<close>

text \<open>
  The script matches with regular expression literals. Every quantifier in them stands
  on a single character class, so a pattern is a list of items: a literal code unit, a
  class, a quantified class (greedy or lazy, with its bounds), the two ends of a capture
  group, and the assertions \<^verbatim>\<open>^\<close> and \<^verbatim>\<open>$\<close>. Matching is JavaScript's backtracking
  search: a greedy quantifier tries the longest run first, a lazy one the shortest, and
  the first alternative under which the rest of the pattern matches wins.

  A match position is the code unit before it (if any) and the text from it on. A
  successful match gives the remaining text at each group end it passed, in order, and
  last the remaining text at the end of the match.
\<close>

datatype rx_item =
    Lit nat
  | Cls "nat \<Rightarrow> bool"
  | Rep bool nat "nat option" "nat \<Rightarrow> bool"
  | GOpen
  | GClose
  | Bol
  | Eol

fun first_some :: "('a \<Rightarrow> 'b option) \<Rightarrow> 'a list \<Rightarrow> 'b option" where
  "first_some f [] = None"
| "first_some f (k # ks) = (case f k of Some y \<Rightarrow> Some y | None \<Rightarrow> first_some f ks)"

definition rep_counts :: "bool \<Rightarrow> nat \<Rightarrow> nat option \<Rightarrow> (nat \<Rightarrow> bool) \<Rightarrow> jsstr \<Rightarrow> nat list" where
  "rep_counts greedy lo hi cls rest =
     (let n = length (takeWhile cls rest);
          n' = (case hi of None \<Rightarrow> n | Some h \<Rightarrow> min h n)
      in if greedy then rev [lo..<Suc n'] else [lo..<Suc n'])"

definition prev_after :: "nat option \<Rightarrow> jsstr \<Rightarrow> nat \<Rightarrow> nat option" where
  "prev_after prev rest k = (if k = 0 then prev else Some (rest ! (k - 1)))"

definition at_bol :: "bool \<Rightarrow> nat option \<Rightarrow> bool" where
  "at_bol multiline prev = (case prev of None \<Rightarrow> True | Some c \<Rightarrow> multiline \<and> is_line_term c)"

definition at_eol :: "bool \<Rightarrow> jsstr \<Rightarrow> bool" where
  "at_eol multiline rest = (case rest of [] \<Rightarrow> True | c # _ \<Rightarrow> multiline \<and> is_line_term c)"

primrec rx_at :: "bool \<Rightarrow> rx_item list \<Rightarrow> nat option \<Rightarrow> jsstr \<Rightarrow> jsstr list option" where
  "rx_at ml [] prev rest = Some [rest]"
| "rx_at ml (x # r) prev rest =
     (case x of
        Lit c \<Rightarrow>
          (case rest of [] \<Rightarrow> None
           | d # ds \<Rightarrow> if d = c then rx_at ml r (Some d) ds else None)
      | Cls p \<Rightarrow>
          (case rest of [] \<Rightarrow> None
           | d # ds \<Rightarrow> if p d then rx_at ml r (Some d) ds else None)
      | Rep greedy lo hi p \<Rightarrow>
          first_some (\<lambda>k. rx_at ml r (prev_after prev rest k) (drop k rest))
            (rep_counts greedy lo hi p rest)
      | GOpen \<Rightarrow> map_option (Cons rest) (rx_at ml r prev rest)
      | GClose \<Rightarrow> map_option (Cons rest) (rx_at ml r prev rest)
      | Bol \<Rightarrow> if at_bol ml prev then rx_at ml r prev rest else None
      | Eol \<Rightarrow> if at_eol ml rest then rx_at ml r prev rest else None)"

text \<open>\<^verbatim>\<open>s.match(re)\<close> without the \<^verbatim>\<open>g\<close> flag: the leftmost position at which the
  pattern matches. The result is the text from the start of the match on, and the marks
  of the match.\<close>

primrec rx_search :: "bool \<Rightarrow> rx_item list \<Rightarrow> nat option \<Rightarrow> jsstr \<Rightarrow> (jsstr \<times> jsstr list) option" where
  "rx_search ml r prev [] = map_option (Pair []) (rx_at ml r prev [])"
| "rx_search ml r prev (c # cs) =
     (case rx_at ml r prev (c # cs) of
        Some marks \<Rightarrow> Some (c # cs, marks)
      | None \<Rightarrow> rx_search ml r (Some c) cs)"

definition rx_match :: "bool \<Rightarrow> rx_item list \<Rightarrow> jsstr \<Rightarrow> (jsstr \<times> jsstr list) option" where
  "rx_match ml r s = rx_search ml r None s"

text \<open>The text between two marks, the first taken earlier than the second.\<close>

definition between :: "jsstr \<Rightarrow> jsstr \<Rightarrow> jsstr" where
  "between a b = take (length a - length b) a"

text \<open>The first capture group of a match of a pattern with one group.\<close>

definition group1 :: "jsstr list \<Rightarrow> jsstr" where
  "group1 marks = (case marks of a # b # _ \<Rightarrow> between a b | _ \<Rightarrow> [])"

definition lits :: "jsstr \<Rightarrow> rx_item list" where
  "lits s = map Lit s"

section \<open>The file system\<close>

text \<open>
  The script reads directories and files and writes two files. The file system is a tree:
  a file with its text, or a directory with its named entries, in the order
  \<^verbatim>\<open>readdirSync\<close> lists them. A path is the list of its segments from the root of
  the tree, so \<^verbatim>\<open>path.join(dir, name)\<close> appends a segment. The calls of \<^verbatim>\<open>fs\<close> that
  throw return an error value here.
\<close>

datatype node = File jsstr | Dir "(jsstr \<times> node) list"

type_synonym path = "jsstr list"

datatype error = ENOENT | ENOTDIR | EISDIR | TypeError

fun lookup :: "node \<Rightarrow> path \<Rightarrow> node option"
  and lookup_in :: "(jsstr \<times> node) list \<Rightarrow> jsstr \<Rightarrow> path \<Rightarrow> node option" where
  "lookup (File c) p = (if p = [] then Some (File c) else None)"
| "lookup (Dir es) [] = Some (Dir es)"
| "lookup (Dir es) (x # p) = lookup_in es x p"
| "lookup_in [] x p = None"
| "lookup_in (e # es) x p = (if fst e = x then lookup (snd e) p else lookup_in es x p)"

definition existsSync :: "node \<Rightarrow> path \<Rightarrow> bool" where
  "existsSync fs p = (lookup fs p \<noteq> None)"

definition readFileSync :: "node \<Rightarrow> path \<Rightarrow> error + jsstr" where
  "readFileSync fs p =
     (case lookup fs p of
        None \<Rightarrow> Inl ENOENT
      | Some (Dir es) \<Rightarrow> Inl EISDIR
      | Some (File c) \<Rightarrow> Inr c)"

text \<open>A directory entry as \<^verbatim>\<open>readdirSync(_, { withFileTypes: true })\<close> gives it: its
  name and whether it is a directory.\<close>

record dirent =
  name :: jsstr
  isDirectory :: bool

fun is_dir :: "node \<Rightarrow> bool" where
  "is_dir (Dir es) = True"
| "is_dir (File c) = False"

definition readdirSync :: "node \<Rightarrow> path \<Rightarrow> error + dirent list" where
  "readdirSync fs p =
     (case lookup fs p of
        None \<Rightarrow> Inl ENOENT
      | Some (File c) \<Rightarrow> Inl ENOTDIR
      | Some (Dir es) \<Rightarrow> Inr (map (\<lambda>e. \<lparr>name = fst e, isDirectory = is_dir (snd e)\<rparr>) es))"

text \<open>\<^verbatim>\<open>writeFileSync\<close> replaces the text of a file, or creates the file in an existing
  directory.\<close>

fun write_node :: "node \<Rightarrow> path \<Rightarrow> jsstr \<Rightarrow> error + node"
  and write_in :: "(jsstr \<times> node) list \<Rightarrow> jsstr \<Rightarrow> path \<Rightarrow> jsstr \<Rightarrow> error + (jsstr \<times> node) list" where
  "write_node (File c) p t = (if p = [] then Inr (File t) else Inl ENOTDIR)"
| "write_node (Dir es) [] t = Inl EISDIR"
| "write_node (Dir es) (x # p) t =
     (case write_in es x p t of Inl e \<Rightarrow> Inl e | Inr es' \<Rightarrow> Inr (Dir es'))"
| "write_in [] x p t = (if p = [] then Inr [(x, File t)] else Inl ENOENT)"
| "write_in (e # es) x p t =
     (if fst e = x then
        (case write_node (snd e) p t of Inl err \<Rightarrow> Inl err | Inr n \<Rightarrow> Inr ((x, n) # es))
      else
        (case write_in es x p t of Inl err \<Rightarrow> Inl err | Inr es' \<Rightarrow> Inr (e # es')))"

definition writeFileSync :: "node \<Rightarrow> path \<Rightarrow> jsstr \<Rightarrow> error + node" where
  "writeFileSync fs p t = write_node fs p t"

text \<open>\<^verbatim>\<open>path.basename\<close> and \<^verbatim>\<open>path.dirname\<close> on segment lists; the base name of the
  root is the empty string.\<close>

definition basename :: "path \<Rightarrow> jsstr" where
  "basename p = (if p = [] then [] else last p)"

definition dirname :: "path \<Rightarrow> path" where
  "dirname p = butlast p"

text \<open>\<^verbatim>\<open>path.relative(from, to).split(path.sep)\<close>: the common prefix is dropped, every
  segment left of \<^verbatim>\<open>from\<close> becomes \<^verbatim>\<open>..\<close>, and the empty relative path splits into one
  empty segment.\<close>

fun relative_segments :: "path \<Rightarrow> path \<Rightarrow> path" where
  "relative_segments (a # as) (b # bs) =
     (if a = b then relative_segments as bs
      else map (\<lambda>_. ascii ''..'') (a # as) @ (b # bs))"
| "relative_segments as bs = map (\<lambda>_. ascii ''..'') as @ bs"

definition relative_parts :: "path \<Rightarrow> path \<Rightarrow> jsstr list" where
  "relative_parts from to =
     (case relative_segments from to of [] \<Rightarrow> [[]] | ps \<Rightarrow> ps)"

text \<open>\<^verbatim>\<open>path.join(base, s, 'SKILL.md')\<close> for a string \<^verbatim>\<open>s\<close> that may hold separators:
  the string is split at \<^verbatim>\<open>/\<close> and the whole is normalised, an empty segment and \<^verbatim>\<open>.\<close>
  dropped, and \<^verbatim>\<open>..\<close> removing the segment before it.\<close>

fun normalize_onto :: "path \<Rightarrow> jsstr list \<Rightarrow> path" where
  "normalize_onto acc [] = acc"
| "normalize_onto acc (s # ss) =
     (if s = [] \<or> s = ascii ''.'' then normalize_onto acc ss
      else if s = ascii ''..'' then normalize_onto (butlast acc) ss
      else normalize_onto (acc @ [s]) ss)"

definition join_string :: "path \<Rightarrow> jsstr \<Rightarrow> path" where
  "join_string base s = normalize_onto base (split_on 47 s)"

section \<open>Objects used as dictionaries\<close>

text \<open>
  The script keeps its tables in plain objects created by \<^verbatim>\<open>{}\<close>. Such an object has
  its own properties, in insertion order, and inherits the properties of
  \<^verbatim>\<open>Object.prototype\<close>: reading \<^verbatim>\<open>obj[key]\<close> for a key the object does not own gives
  the inherited value when the key names one (all of them functions, except
  \<^verbatim>\<open>__proto__\<close>, an object; none has a \<^verbatim>\<open>push\<close> or \<^verbatim>\<open>map\<close> method), and
  \<^verbatim>\<open>undefined\<close> otherwise.
\<close>

type_synonym 'v jsobj = "(jsstr \<times> 'v) list"

definition prototype_keys :: "jsstr list" where
  "prototype_keys = map ascii
     [''constructor'', ''__defineGetter__'', ''__defineSetter__'', ''hasOwnProperty'',
      ''__lookupGetter__'', ''__lookupSetter__'', ''isPrototypeOf'',
      ''propertyIsEnumerable'', ''toString'', ''valueOf'', ''__proto__'',
      ''toLocaleString'']"

datatype 'v lookup_result = Own 'v | Inherited | Undefined

definition obj_get :: "'v jsobj \<Rightarrow> jsstr \<Rightarrow> 'v lookup_result" where
  "obj_get obj k =
     (case map_of obj k of
        Some v \<Rightarrow> Own v
      | None \<Rightarrow> if k \<in> set prototype_keys then Inherited else Undefined)"

text \<open>\<^verbatim>\<open>obj[key] = v\<close> for a key that is not \<^verbatim>\<open>__proto__\<close>: an own property keeps its
  place, a new one comes last.\<close>

fun obj_set :: "'v jsobj \<Rightarrow> jsstr \<Rightarrow> 'v \<Rightarrow> 'v jsobj" where
  "obj_set [] k v = [(k, v)]"
| "obj_set (p # ps) k v = (if fst p = k then (k, v) # ps else p # obj_set ps k v)"

text \<open>
  \<^verbatim>\<open>Object.keys\<close> and \<^verbatim>\<open>Object.entries\<close> list the own properties: first the keys that
  are array indices (canonical decimal numerals below \<open>2\<^sup>3\<^sup>2 - 1\<close>) in ascending
  numeric order, then the other keys in insertion order.
\<close>

definition is_array_index :: "jsstr \<Rightarrow> bool" where
  "is_array_index k =
     (k \<noteq> [] \<and> list_all is_digit k \<and> (k = [48] \<or> hd k \<noteq> 48) \<and> parseInt k < 4294967295)"

definition obj_entries :: "'v jsobj \<Rightarrow> (jsstr \<times> 'v) list" where
  "obj_entries obj =
     sort_key (\<lambda>e. parseInt (fst e)) (filter (\<lambda>e. is_array_index (fst e)) obj)
     @ filter (\<lambda>e. \<not> is_array_index (fst e)) obj"

definition obj_keys :: "'v jsobj \<Rightarrow> jsstr list" where
  "obj_keys obj = map fst (obj_entries obj)"

section \<open>The script \<^verbatim>\<open>scripts/sync-stats.js\<close>\<close>

text \<open>
  The functions follow the source in its order. The constants \<^verbatim>\<open>SKILLS_DIR\<close>,
  \<^verbatim>\<open>README_PATH\<close> and \<^verbatim>\<open>SKILLS_MD_PATH\<close> are computed from \<^verbatim>\<open>ROOT_DIR\<close>, the parent of
  the script's directory, which is a parameter here. Console output (\<^verbatim>\<open>log\<close>) is not
  part of the model: no call of it can throw, and nothing read later depends on it.
\<close>

definition SKILLS_DIR :: "path \<Rightarrow> path" where
  "SKILLS_DIR ROOT_DIR = ROOT_DIR @ [ascii ''skills'']"

definition README_PATH :: "path \<Rightarrow> path" where
  "README_PATH ROOT_DIR = ROOT_DIR @ [ascii ''README.md'']"

definition SKILLS_MD_PATH :: "path \<Rightarrow> path" where
  "SKILLS_MD_PATH ROOT_DIR = ROOT_DIR @ [ascii ''docs'', ascii ''skills.md'']"

subsection \<open>\<^verbatim>\<open>scanSkillDirs\<close>\<close>

record broken_dir =
  broken_source :: jsstr
  broken_id :: jsstr
  broken_dir :: path

type_synonym scan_result = "path list \<times> broken_dir list"

text \<open>The inner loop, over the entries of one source directory.\<close>

fun scan_skill_entries :: "node \<Rightarrow> path \<Rightarrow> jsstr \<Rightarrow> dirent list \<Rightarrow> scan_result \<Rightarrow> scan_result" where
  "scan_skill_entries fs sourceDir sourceName [] acc = acc"
| "scan_skill_entries fs sourceDir sourceName (skillEntry # rest) (results, broken) =
     (if \<not> isDirectory skillEntry then
        scan_skill_entries fs sourceDir sourceName rest (results, broken)
      else
        let skillDir = sourceDir @ [name skillEntry];
            entryPath = skillDir @ [ascii ''SKILL.md'']
        in if \<not> existsSync fs entryPath then
             scan_skill_entries fs sourceDir sourceName rest
               (results,
                broken @ [\<lparr>broken_source = drop 1 sourceName, broken_id = name skillEntry,
                           broken_dir = skillDir\<rparr>])
           else scan_skill_entries fs sourceDir sourceName rest (results @ [entryPath], broken))"

text \<open>The outer loop, over the entries of the skills directory.\<close>

fun scan_source_entries :: "node \<Rightarrow> path \<Rightarrow> dirent list \<Rightarrow> scan_result \<Rightarrow> error + scan_result" where
  "scan_source_entries fs skillsDir [] acc = Inr acc"
| "scan_source_entries fs skillsDir (sourceEntry # rest) acc =
     (if \<not> isDirectory sourceEntry then scan_source_entries fs skillsDir rest acc
      else if \<not> startsWith (name sourceEntry) (ascii ''@'') then
        scan_source_entries fs skillsDir rest acc
      else
        let sourceDir = skillsDir @ [name sourceEntry]
        in (case readdirSync fs sourceDir of
              Inl e \<Rightarrow> Inl e
            | Inr skillEntries \<Rightarrow>
                scan_source_entries fs skillsDir rest
                  (scan_skill_entries fs sourceDir (name sourceEntry) skillEntries acc)))"

definition scanSkillDirs :: "node \<Rightarrow> path \<Rightarrow> error + scan_result" where
  "scanSkillDirs fs skillsDir =
     (if \<not> existsSync fs skillsDir then Inr ([], [])
      else case readdirSync fs skillsDir of
             Inl e \<Rightarrow> Inl e
           | Inr sourceEntries \<Rightarrow> scan_source_entries fs skillsDir sourceEntries ([], []))"

subsection \<open>\<^verbatim>\<open>parseSkillMetadata\<close>\<close>

text \<open>\<^verbatim>\<open>/^---\n([\s\S]*?)\n---/\<close>\<close>

definition rx_frontmatter :: "rx_item list" where
  "rx_frontmatter =
     [Bol] @ lits (ascii ''---'') @ [Lit 10, GOpen, Rep False 0 None is_any, GClose, Lit 10]
     @ lits (ascii ''---'')"

text \<open>\<^verbatim>\<open>/^name:\s*(.+)$/m\<close>\<close>

definition rx_name_line :: "rx_item list" where
  "rx_name_line =
     [Bol] @ lits (ascii ''name:'')
     @ [Rep True 0 None is_space, GOpen, Rep True 1 None is_dot, GClose, Eol]"

text \<open>\<^verbatim>\<open>/^description:\s*["']?(.+?)["']?\s*$/m\<close>\<close>

definition rx_description_line :: "rx_item list" where
  "rx_description_line =
     [Bol] @ lits (ascii ''description:'')
     @ [Rep True 0 None is_space, Rep True 0 (Some 1) is_quote, GOpen,
        Rep False 1 None is_dot, GClose, Rep True 0 (Some 1) is_quote,
        Rep True 0 None is_space, Eol]"

record metadata =
  meta_name :: jsstr
  meta_description :: jsstr

definition parseSkillMetadata :: "node \<Rightarrow> path \<Rightarrow> error + metadata" where
  "parseSkillMetadata fs filePath =
     (case readFileSync fs filePath of
        Inl e \<Rightarrow> Inl e
      | Inr content \<Rightarrow>
          (case rx_match False rx_frontmatter content of
             None \<Rightarrow>
               Inr \<lparr>meta_name = basename (dirname filePath), meta_description = []\<rparr>
           | Some match \<Rightarrow>
               let frontmatter = group1 (snd match);
                   nameMatch = rx_match True rx_name_line frontmatter;
                   descMatch = rx_match True rx_description_line frontmatter
               in Inr \<lparr>meta_name =
                          (case nameMatch of
                             Some m \<Rightarrow> trim (group1 (snd m))
                           | None \<Rightarrow> basename (dirname filePath)),
                        meta_description =
                          (case descMatch of
                             Some m \<Rightarrow> trim (group1 (snd m))
                           | None \<Rightarrow> [])\<rparr>))"

subsection \<open>\<^verbatim>\<open>collectStats\<close>\<close>

record skill =
  skill_id :: jsstr
  skill_path :: path
  skill_name :: jsstr
  skill_description :: jsstr

text \<open>
  The loop over the marker files. \<^verbatim>\<open>statsBySource[source]\<close> is read through the
  prototype chain: for a source named like an inherited property the test
  \<^verbatim>\<open>!statsBySource[source]\<close> is false, no array is stored, and the call of \<^verbatim>\<open>push\<close> on
  the inherited value throws a \<^verbatim>\<open>TypeError\<close>. The argument of \<^verbatim>\<open>push\<close>, with the call of
  \<^verbatim>\<open>parseSkillMetadata\<close> in it, is evaluated before the call, so an error of the read
  comes first.
\<close>

fun collect_files :: "node \<Rightarrow> path \<Rightarrow> path list \<Rightarrow> skill list jsobj \<Rightarrow> error + skill list jsobj" where
  "collect_files fs skillsDir [] statsBySource = Inr statsBySource"
| "collect_files fs skillsDir (filePath # rest) statsBySource =
     (let parts = relative_parts skillsDir filePath
      in if length parts \<noteq> 3 then collect_files fs skillsDir rest statsBySource
         else if \<not> startsWith (parts ! 0) (ascii ''@'') then
           collect_files fs skillsDir rest statsBySource
         else if parts ! 2 \<noteq> ascii ''SKILL.md'' then
           collect_files fs skillsDir rest statsBySource
         else
           let source = drop 1 (parts ! 0);
               skillId = parts ! 1
           in (case parseSkillMetadata fs filePath of
                 Inl e \<Rightarrow> Inl e
               | Inr meta \<Rightarrow>
                   (let entry = \<lparr>skill_id = skillId, skill_path = filePath,
                                 skill_name = meta_name meta,
                                 skill_description = meta_description meta\<rparr>
                    in (case obj_get statsBySource source of
                          Inherited \<Rightarrow> Inl TypeError
                        | Undefined \<Rightarrow>
                            collect_files fs skillsDir rest
                              (obj_set statsBySource source [entry])
                        | Own skills \<Rightarrow>
                            collect_files fs skillsDir rest
                              (obj_set statsBySource source (skills @ [entry]))))))"

definition collectStats :: "path \<Rightarrow> node \<Rightarrow> error + (skill list jsobj \<times> broken_dir list)" where
  "collectStats ROOT_DIR fs =
     (case scanSkillDirs fs (SKILLS_DIR ROOT_DIR) of
        Inl e \<Rightarrow> Inl e
      | Inr scanned \<Rightarrow>
          (case collect_files fs (SKILLS_DIR ROOT_DIR) (fst scanned) [] of
             Inl e \<Rightarrow> Inl e
           | Inr statsBySource \<Rightarrow> Inr (statsBySource, snd scanned)))"

subsection \<open>\<^verbatim>\<open>updateStatsInFile\<close>\<close>

text \<open>
  \<^verbatim>\<open>content.replace(re, fn)\<close> with a \<^verbatim>\<open>g\<close> flag: the text is scanned from the left; at
  a match the value of the callback stands for the matched text and the scan goes on
  behind the match (one code unit further on after an empty match); elsewhere the code
  unit is copied. The callbacks of the script assign the variable \<^verbatim>\<open>modified\<close>, which is
  the state passed through the calls.
\<close>

type_synonym callback = "jsstr \<Rightarrow> jsstr list \<Rightarrow> bool \<Rightarrow> jsstr \<times> bool"

function replace_all :: "bool \<Rightarrow> rx_item list \<Rightarrow> callback \<Rightarrow> nat option \<Rightarrow> jsstr \<Rightarrow> bool \<Rightarrow> jsstr \<times> bool" where
  "replace_all ml r cb prev rest modified =
     (case rx_at ml r prev rest of
        None \<Rightarrow>
          (case rest of
             [] \<Rightarrow> ([], modified)
           | c # cs \<Rightarrow>
               (case replace_all ml r cb (Some c) cs modified of
                  (out, modified') \<Rightarrow> (c # out, modified')))
      | Some marks \<Rightarrow>
          (let n = length rest - length (last marks);
               matched = take n rest
           in (case cb matched marks modified of
                 (replacement, modified1) \<Rightarrow>
                   if n = 0 then
                     (case rest of
                        [] \<Rightarrow> (replacement, modified1)
                      | c # cs \<Rightarrow>
                          (case replace_all ml r cb (Some c) cs modified1 of
                             (out, modified') \<Rightarrow> (replacement @ c # out, modified')))
                   else
                     (case replace_all ml r cb (Some (last matched)) (drop n rest) modified1 of
                        (out, modified') \<Rightarrow> (replacement @ out, modified')))))"
  by pat_completeness auto
termination
  by (relation "measure (\<lambda>(ml, r, cb, prev, rest, modified). length rest)") auto

declare replace_all.simps [simp del]

definition js_replace :: "rx_item list \<Rightarrow> callback \<Rightarrow> jsstr \<times> bool \<Rightarrow> jsstr \<times> bool" where
  "js_replace r cb state = replace_all False r cb None (fst state) (snd state)"

text \<open>The code units of the Chinese characters of the four patterns.\<close>

definition zh_gong :: nat where "zh_gong = 20849"
definition zh_ge :: nat where "zh_ge = 20010"
definition zh_lai :: nat where "zh_lai = 26469"
definition zh_zi :: nat where "zh_zi = 33258"
definition zh_yuan :: nat where "zh_yuan = 28304"
definition zh_cha :: nat where "zh_cha = 26597"
definition zh_kan :: nat where "zh_kan = 30475"
definition zh_quan :: nat where "zh_quan = 20840"
definition zh_bu :: nat where "zh_bu = 37096"

text \<open>\<^verbatim>\<open>/<U+5171>\s*(\d+)\s*<U+4E2A>\s*Skills/g\<close>\<close>

definition skillCountPattern :: "rx_item list" where
  "skillCountPattern =
     [Lit zh_gong, Rep True 0 None is_space, GOpen, Rep True 1 None is_digit, GClose,
      Rep True 0 None is_space, Lit zh_ge, Rep True 0 None is_space]
     @ lits (ascii ''Skills'')"

text \<open>\<^verbatim>\<open>/<U+6765><U+81EA>\s*(\d+)\s*<U+4E2A><U+6E90>/g\<close>\<close>

definition sourceCountPattern :: "rx_item list" where
  "sourceCountPattern =
     [Lit zh_lai, Lit zh_zi, Rep True 0 None is_space, GOpen, Rep True 1 None is_digit,
      GClose, Rep True 0 None is_space, Lit zh_ge, Lit zh_yuan]"

text \<open>\<^verbatim>\<open>/\*\*(\d+)\s*<U+4E2A>\s*Skills\*\*/g\<close>\<close>

definition boldCountPattern :: "rx_item list" where
  "boldCountPattern =
     [Lit 42, Lit 42, GOpen, Rep True 1 None is_digit, GClose,
      Rep True 0 None is_space, Lit zh_ge, Rep True 0 None is_space]
     @ lits (ascii ''Skills**'')"

text \<open>\<^verbatim>\<open>/<U+67E5><U+770B><U+5168><U+90E8>\s*(\d+)\s*<U+4E2A>\s*Skills/g\<close>\<close>

definition viewAllPattern :: "rx_item list" where
  "viewAllPattern =
     [Lit zh_cha, Lit zh_kan, Lit zh_quan, Lit zh_bu, Rep True 0 None is_space, GOpen,
      Rep True 1 None is_digit, GClose, Rep True 0 None is_space, Lit zh_ge,
      Rep True 0 None is_space]
     @ lits (ascii ''Skills'')"

text \<open>The four callbacks differ in the count they compare with and in the text they
  build around it.\<close>

definition count_callback :: "nat \<Rightarrow> jsstr \<Rightarrow> jsstr \<Rightarrow> callback" where
  "count_callback count before after match marks modified =
     (if parseInt (group1 marks) \<noteq> count then (before @ digits_of count @ after, True)
      else (match, modified))"

definition skillCountCallback :: "nat \<Rightarrow> callback" where
  "skillCountCallback totalCount =
     count_callback totalCount [zh_gong, 32] ([32, zh_ge, 32] @ ascii ''Skills'')"

definition sourceCountCallback :: "nat \<Rightarrow> callback" where
  "sourceCountCallback sourceCount =
     count_callback sourceCount [zh_lai, zh_zi, 32] [32, zh_ge, zh_yuan]"

definition boldCountCallback :: "nat \<Rightarrow> callback" where
  "boldCountCallback totalCount =
     count_callback totalCount [42, 42] ([32, zh_ge, 32] @ ascii ''Skills**'')"

definition viewAllCallback :: "nat \<Rightarrow> callback" where
  "viewAllCallback totalCount =
     count_callback totalCount [zh_cha, zh_kan, zh_quan, zh_bu, 32]
       ([32, zh_ge, 32] @ ascii ''Skills'')"

text \<open>The four replacements in their order, from the text read and \<^verbatim>\<open>modified = false\<close>
  to the text and the flag the function ends with.\<close>

definition update_content :: "nat \<Rightarrow> nat \<Rightarrow> jsstr \<Rightarrow> jsstr \<times> bool" where
  "update_content totalCount sourceCount content =
     js_replace viewAllPattern (viewAllCallback totalCount)
       (js_replace boldCountPattern (boldCountCallback totalCount)
          (js_replace sourceCountPattern (sourceCountCallback sourceCount)
             (js_replace skillCountPattern (skillCountCallback totalCount)
                (content, False))))"

text \<open>The function gives its return value (or the error thrown) and the file system it
  leaves.\<close>

definition updateStatsInFile :: "node \<Rightarrow> path \<Rightarrow> nat \<Rightarrow> nat \<Rightarrow> (error + bool) \<times> node" where
  "updateStatsInFile fs filePath totalCount sourceCount =
     (if \<not> existsSync fs filePath then (Inr False, fs)
      else
        (case readFileSync fs filePath of
           Inl e \<Rightarrow> (Inl e, fs)
         | Inr content \<Rightarrow>
             (case update_content totalCount sourceCount content of
                (content', modified) \<Rightarrow>
                  if modified then
                    (case writeFileSync fs filePath content' of
                       Inl e \<Rightarrow> (Inl e, fs)
                     | Inr fs' \<Rightarrow> (Inr True, fs'))
                  else (Inr False, fs))))"

subsection \<open>\<^verbatim>\<open>parseTranslations\<close>\<close>

text \<open>\<^verbatim>\<open>/^  ([a-z][a-z0-9-]*):$/\<close> and \<^verbatim>\<open>/^    ([a-z][a-z0-9.-]*):$/\<close>\<close>

definition is_source_char :: "nat \<Rightarrow> bool" where
  "is_source_char c = (is_lower c \<or> is_digit c \<or> c = 45)"

definition is_skill_char :: "nat \<Rightarrow> bool" where
  "is_skill_char c = (is_lower c \<or> is_digit c \<or> c = 46 \<or> c = 45)"

definition rx_translation_source :: "rx_item list" where
  "rx_translation_source =
     [Bol, Lit 32, Lit 32, GOpen, Cls is_lower, Rep True 0 None is_source_char, GClose,
      Lit 58, Eol]"

definition rx_translation_skill :: "rx_item list" where
  "rx_translation_skill =
     [Bol, Lit 32, Lit 32, Lit 32, Lit 32, GOpen, Cls is_lower,
      Rep True 0 None is_skill_char, GClose, Lit 58, Eol]"

text \<open>The translations: for each source the skill ids under it; the value stored for
  an id is an empty object. The loop state is the table and \<^verbatim>\<open>currentSource\<close>.\<close>

type_synonym translation_table = "unit jsobj jsobj"

fun translation_lines :: "jsstr list \<Rightarrow> translation_table \<Rightarrow> jsstr option \<Rightarrow> error + translation_table" where
  "translation_lines [] translations currentSource = Inr translations"
| "translation_lines (line # rest) translations currentSource =
     (case rx_match False rx_translation_source line of
        Some sourceMatch \<Rightarrow>
          translation_lines rest
            (obj_set translations (group1 (snd sourceMatch)) [])
            (Some (group1 (snd sourceMatch)))
      | None \<Rightarrow>
          (case (rx_match False rx_translation_skill line, currentSource) of
             (Some skillMatch, Some src) \<Rightarrow>
               (case obj_get translations src of
                  Own skillIds \<Rightarrow>
                    translation_lines rest
                      (obj_set translations src (obj_set skillIds (group1 (snd skillMatch)) ()))
                      currentSource
                | _ \<Rightarrow> Inl TypeError)
           | _ \<Rightarrow> translation_lines rest translations currentSource))"

definition parseTranslations :: "node \<Rightarrow> path \<Rightarrow> error + translation_table" where
  "parseTranslations fs filePath =
     (if \<not> existsSync fs filePath then Inr []
      else
        (case readFileSync fs filePath of
           Inl e \<Rightarrow> Inl e
         | Inr content \<Rightarrow> translation_lines (split_on 10 content) [] None))"

subsection \<open>\<^verbatim>\<open>parseIndex\<close>\<close>

record index_entry =
  entry_id :: jsstr
  entry_source :: jsstr
  entry_path :: jsstr

definition unquote :: "jsstr \<Rightarrow> jsstr" where
  "unquote val =
     (let v = trim val
      in if (startsWith v [34] \<and> endsWith v [34]) \<or> (startsWith v [39] \<and> endsWith v [39])
         then butlast (drop 1 v) else v)"

text \<open>\<^verbatim>\<open>/^\s*-\s*id:\s*(.+)\s*$/\<close>, \<^verbatim>\<open>/^\s*source:\s*(.+)\s*$/\<close> and
  \<^verbatim>\<open>/^\s*path:\s*(.+)\s*$/\<close>\<close>

definition rx_field_value :: "rx_item list" where
  "rx_field_value =
     [Rep True 0 None is_space, GOpen, Rep True 1 None is_dot, GClose,
      Rep True 0 None is_space, Eol]"

definition rx_index_id :: "rx_item list" where
  "rx_index_id =
     [Bol, Rep True 0 None is_space, Lit 45, Rep True 0 None is_space]
     @ lits (ascii ''id:'') @ rx_field_value"

definition rx_index_source :: "rx_item list" where
  "rx_index_source = [Bol, Rep True 0 None is_space] @ lits (ascii ''source:'') @ rx_field_value"

definition rx_index_path :: "rx_item list" where
  "rx_index_path = [Bol, Rep True 0 None is_space] @ lits (ascii ''path:'') @ rx_field_value"

text \<open>A record is kept when its three fields are truthy, that is, not empty.\<close>

definition complete_entry :: "index_entry option \<Rightarrow> bool" where
  "complete_entry current =
     (case current of
        None \<Rightarrow> False
      | Some e \<Rightarrow> entry_id e \<noteq> [] \<and> entry_source e \<noteq> [] \<and> entry_path e \<noteq> [])"

fun index_lines :: "jsstr list \<Rightarrow> index_entry list \<Rightarrow> index_entry option \<Rightarrow> index_entry list" where
  "index_lines [] entries current =
     (if complete_entry current then entries @ [the current] else entries)"
| "index_lines (line # rest) entries current =
     (case rx_match False rx_index_id line of
        Some idMatch \<Rightarrow>
          index_lines rest
            (if complete_entry current then entries @ [the current] else entries)
            (Some \<lparr>entry_id = unquote (group1 (snd idMatch)), entry_source = [],
                   entry_path = []\<rparr>)
      | None \<Rightarrow>
          (case current of
             None \<Rightarrow> index_lines rest entries current
           | Some cur \<Rightarrow>
               (case rx_match False rx_index_source line of
                  Some sourceMatch \<Rightarrow>
                    index_lines rest entries
                      (Some (cur\<lparr>entry_source := unquote (group1 (snd sourceMatch))\<rparr>))
                | None \<Rightarrow>
                    (case rx_match False rx_index_path line of
                       Some pathMatch \<Rightarrow>
                         index_lines rest entries
                           (Some (cur\<lparr>entry_path := unquote (group1 (snd pathMatch))\<rparr>))
                     | None \<Rightarrow> index_lines rest entries current))))"

record index =
  index_entries :: "index_entry list"
  index_bySource :: "index_entry list jsobj"
  index_byPath :: "index_entry jsobj"

text \<open>
  The two tables of the index. \<^verbatim>\<open>bySource[e.source]\<close> is read through the prototype
  chain as in \<^verbatim>\<open>collectStats\<close>. The assignment \<^verbatim>\<open>byPath[e.path] = e\<close> stores an own
  property, except for the path \<^verbatim>\<open>__proto__\<close>, where it sets the prototype and stores
  none.
\<close>

fun index_tables :: "index_entry list \<Rightarrow> index_entry list jsobj \<Rightarrow> index_entry jsobj
    \<Rightarrow> error + (index_entry list jsobj \<times> index_entry jsobj)" where
  "index_tables [] bySource byPath = Inr (bySource, byPath)"
| "index_tables (e # es) bySource byPath =
     (let byPath' = (if entry_path e = ascii ''__proto__'' then byPath
                     else obj_set byPath (entry_path e) e)
      in (case obj_get bySource (entry_source e) of
            Inherited \<Rightarrow> Inl TypeError
          | Undefined \<Rightarrow> index_tables es (obj_set bySource (entry_source e) [e]) byPath'
          | Own l \<Rightarrow> index_tables es (obj_set bySource (entry_source e) (l @ [e])) byPath'))"

text \<open>The function returns an empty object when the file is missing, which is \<open>None\<close>
  here.\<close>

definition parseIndex :: "node \<Rightarrow> path \<Rightarrow> error + index option" where
  "parseIndex fs filePath =
     (if \<not> existsSync fs filePath then Inr None
      else
        (case readFileSync fs filePath of
           Inl e \<Rightarrow> Inl e
         | Inr content \<Rightarrow>
             (let es = index_lines (split_on 10 content) [] None
              in (case index_tables es [] [] of
                    Inl e \<Rightarrow> Inl e
                  | Inr tables \<Rightarrow>
                      Inr (Some \<lparr>index_entries = es, index_bySource = fst tables,
                                 index_byPath = snd tables\<rparr>)))))"

subsection \<open>\<^verbatim>\<open>verifyTranslations\<close>\<close>

record missing_item =
  missing_source :: jsstr
  missing_id :: jsstr
  missing_type :: jsstr
  missing_path :: "jsstr option"

record orphaned_item =
  orphaned_source :: jsstr
  orphaned_id :: jsstr
  orphaned_type :: jsstr

record verify_result =
  result_missing :: "missing_item list"
  result_orphaned :: "orphaned_item list"
  result_translations :: translation_table
  result_indexEntries :: "index_entry list"

text \<open>The template literal \<^verbatim>\<open>`@${source}/${skill.id}`\<close>.\<close>

definition expected_path :: "jsstr \<Rightarrow> jsstr \<Rightarrow> jsstr" where
  "expected_path source skillId = [64] @ source @ [47] @ skillId"

text \<open>
  \<^verbatim>\<open>translations[source] && translations[source][indexEntry.id]\<close>, both reads through
  the prototype chain. The values stored in the tables are objects, which are truthy. For
  a source that \<^verbatim>\<open>translations\<close> does not own and that names an inherited property, the
  second read is a read on a built-in object of the engine; whether it gives a truthy
  value is the parameter \<open>inherited_has\<close>.
\<close>

definition hasTranslation :: "(jsstr \<Rightarrow> jsstr \<Rightarrow> bool) \<Rightarrow> translation_table \<Rightarrow> jsstr \<Rightarrow> jsstr \<Rightarrow> bool" where
  "hasTranslation inherited_has translations source entryId =
     (case obj_get translations source of
        Undefined \<Rightarrow> False
      | Inherited \<Rightarrow> inherited_has source entryId
      | Own skillIds \<Rightarrow> (case obj_get skillIds entryId of Undefined \<Rightarrow> False | _ \<Rightarrow> True))"

text \<open>
  Pass 1, the inner loop over the skills of one source. The key of
  \<^verbatim>\<open>indexByPath[expectedPath]\<close> begins with \<^verbatim>\<open>@\<close>, and neither \<^verbatim>\<open>Object.prototype\<close> nor
  an index entry (which a path \<^verbatim>\<open>__proto__\<close> makes the prototype) has a property of such
  a name: the read gives the own property or \<^verbatim>\<open>undefined\<close>.
\<close>

fun check_skills :: "(jsstr \<Rightarrow> jsstr \<Rightarrow> bool) \<Rightarrow> translation_table \<Rightarrow> index_entry jsobj \<Rightarrow> jsstr
    \<Rightarrow> skill list \<Rightarrow> missing_item list" where
  "check_skills inherited_has translations indexByPath source [] = []"
| "check_skills inherited_has translations indexByPath source (skill # rest) =
     (let expectedPath = expected_path source (skill_id skill)
      in (case map_of indexByPath expectedPath of
            None \<Rightarrow>
              \<lparr>missing_source = source, missing_id = skill_id skill,
               missing_type = ascii ''index'', missing_path = Some expectedPath\<rparr>
              # check_skills inherited_has translations indexByPath source rest
          | Some indexEntry \<Rightarrow>
              if \<not> hasTranslation inherited_has translations source (entry_id indexEntry) then
                \<lparr>missing_source = source, missing_id = entry_id indexEntry,
                 missing_type = ascii ''translation'', missing_path = Some expectedPath\<rparr>
                # check_skills inherited_has translations indexByPath source rest
              else check_skills inherited_has translations indexByPath source rest))"

definition check_directories :: "(jsstr \<Rightarrow> jsstr \<Rightarrow> bool) \<Rightarrow> translation_table \<Rightarrow> index_entry jsobj
    \<Rightarrow> skill list jsobj \<Rightarrow> missing_item list" where
  "check_directories inherited_has translations indexByPath statsBySource =
     concat (map (\<lambda>e. check_skills inherited_has translations indexByPath (fst e) (snd e))
       (obj_entries statsBySource))"

text \<open>Pass 2: every index entry needs its marker file,
  \<^verbatim>\<open>path.join(SKILLS_DIR, entry.path, 'SKILL.md')\<close>.\<close>

fun check_index_entries :: "node \<Rightarrow> path \<Rightarrow> index_entry list \<Rightarrow> missing_item list" where
  "check_index_entries fs skillsDir [] = []"
| "check_index_entries fs skillsDir (entry # rest) =
     (let entryFile = normalize_onto skillsDir (split_on 47 (entry_path entry) @ [ascii ''SKILL.md''])
      in if \<not> existsSync fs entryFile then
           \<lparr>missing_source = entry_source entry, missing_id = entry_id entry,
            missing_type = ascii ''skillDir'', missing_path = Some (entry_path entry)\<rparr>
           # check_index_entries fs skillsDir rest
         else check_index_entries fs skillsDir rest)"

text \<open>Pass 3: the translations without an index entry. \<^verbatim>\<open>indexBySource[source]\<close> is read
  through the prototype chain; an inherited value is truthy and has no method \<^verbatim>\<open>map\<close>,
  so the call throws.\<close>

fun check_ids :: "jsstr \<Rightarrow> jsstr list \<Rightarrow> jsstr list \<Rightarrow> orphaned_item list" where
  "check_ids source valid [] = []"
| "check_ids source valid (i # rest) =
     (if i \<notin> set valid then
        \<lparr>orphaned_source = source, orphaned_id = i, orphaned_type = ascii ''translation''\<rparr>
        # check_ids source valid rest
      else check_ids source valid rest)"

fun check_translations :: "index_entry list jsobj \<Rightarrow> (jsstr \<times> unit jsobj) list
    \<Rightarrow> error + orphaned_item list" where
  "check_translations indexBySource [] = Inr []"
| "check_translations indexBySource (e # rest) =
     (case obj_get indexBySource (fst e) of
        Inherited \<Rightarrow> Inl TypeError
      | found \<Rightarrow>
          (let valid = (case found of Own es \<Rightarrow> map entry_id es | _ \<Rightarrow> [])
           in (case check_translations indexBySource rest of
                 Inl err \<Rightarrow> Inl err
               | Inr others \<Rightarrow> Inr (check_ids (fst e) valid (obj_keys (snd e)) @ others))))"

text \<open>Pass 4: the directories without a marker file.\<close>

definition broken_items :: "broken_dir list \<Rightarrow> missing_item list" where
  "broken_items broken =
     map (\<lambda>item. \<lparr>missing_source = broken_source item, missing_id = broken_id item,
                   missing_type = ascii ''missingSkillMd'', missing_path = None\<rparr>) broken"

definition verifyTranslations :: "(jsstr \<Rightarrow> jsstr \<Rightarrow> bool) \<Rightarrow> path \<Rightarrow> node \<Rightarrow> skill list jsobj
    \<Rightarrow> broken_dir list \<Rightarrow> path \<Rightarrow> error + verify_result" where
  "verifyTranslations inherited_has ROOT_DIR fs statsBySource broken cliRegistryPath =
     (let i18nPath = cliRegistryPath @ [ascii ''i18n'', ascii ''zh-CN.yaml''];
          indexPath = cliRegistryPath @ [ascii ''index.yaml'']
      in (case parseTranslations fs i18nPath of
            Inl e \<Rightarrow> Inl e
          | Inr translations \<Rightarrow>
              (case parseIndex fs indexPath of
                 Inl e \<Rightarrow> Inl e
               | Inr idx \<Rightarrow>
                   (let indexEntries = (case idx of None \<Rightarrow> [] | Some i \<Rightarrow> index_entries i);
                        indexBySource = (case idx of None \<Rightarrow> [] | Some i \<Rightarrow> index_bySource i);
                        indexByPath = (case idx of None \<Rightarrow> [] | Some i \<Rightarrow> index_byPath i)
                    in (case check_translations indexBySource (obj_entries translations) of
                          Inl e \<Rightarrow> Inl e
                        | Inr orphaned \<Rightarrow>
                            Inr \<lparr>result_missing =
                                   check_directories inherited_has translations indexByPath
                                     statsBySource
                                   @ check_index_entries fs (SKILLS_DIR ROOT_DIR) indexEntries
                                   @ broken_items broken,
                                 result_orphaned = orphaned,
                                 result_translations = translations,
                                 result_indexEntries = indexEntries\<rparr>)))))"

subsection \<open>\<^verbatim>\<open>main\<close>\<close>

text \<open>The counts: the sources in sorted order, their number, and the sum of the
  lengths of their skill lists. Every source is an own key of the table.\<close>

definition add_lengths :: "skill list jsobj \<Rightarrow> jsstr list \<Rightarrow> nat" where
  "add_lengths statsBySource sources =
     foldl (\<lambda>totalCount source.
              totalCount + (case map_of statsBySource source of
                              Some skills \<Rightarrow> length skills
                            | None \<Rightarrow> 0))
       0 sources"

definition sourceCount_of :: "skill list jsobj \<Rightarrow> nat" where
  "sourceCount_of statsBySource = length (sort (obj_keys statsBySource))"

definition totalCount_of :: "skill list jsobj \<Rightarrow> nat" where
  "totalCount_of statsBySource = add_lengths statsBySource (sort (obj_keys statsBySource))"

fun update_files :: "node \<Rightarrow> path list \<Rightarrow> nat \<Rightarrow> nat \<Rightarrow> error option \<times> node" where
  "update_files fs [] totalCount sourceCount = (None, fs)"
| "update_files fs (file # rest) totalCount sourceCount =
     (case updateStatsInFile fs file totalCount sourceCount of
        (Inl e, fs') \<Rightarrow> (Some e, fs')
      | (Inr updated, fs') \<Rightarrow> update_files fs' rest totalCount sourceCount)"

text \<open>The program: from the arguments after the script name and the file system to the
  error that ended it, if any, and the file system it leaves.\<close>

definition main :: "(jsstr \<Rightarrow> jsstr \<Rightarrow> bool) \<Rightarrow> path \<Rightarrow> jsstr list \<Rightarrow> node \<Rightarrow> error option \<times> node" where
  "main inherited_has ROOT_DIR args fs =
     (let shouldFix = (ascii ''--fix'' \<in> set args)
      in (case collectStats ROOT_DIR fs of
            Inl e \<Rightarrow> (Some e, fs)
          | Inr stats \<Rightarrow>
              (let statsBySource = fst stats;
                   broken = snd stats;
                   sourceCount = sourceCount_of statsBySource;
                   totalCount = totalCount_of statsBySource;
                   cliRegistryPath = butlast ROOT_DIR @ [ascii ''skillwisp-cli'', ascii ''registry''];
                   checked =
                     (if existsSync fs cliRegistryPath then
                        (case verifyTranslations inherited_has ROOT_DIR fs statsBySource broken
                                cliRegistryPath of
                           Inl e \<Rightarrow> Some e
                         | Inr r \<Rightarrow> None)
                      else None)
               in (case checked of
                     Some e \<Rightarrow> (Some e, fs)
                   | None \<Rightarrow>
                       if \<not> shouldFix then (None, fs)
                       else update_files fs [README_PATH ROOT_DIR, SKILLS_MD_PATH ROOT_DIR]
                              totalCount sourceCount))))"

section \<open>Evaluation\<close>

text \<open>The definitions that the simplifier unfolds to run the model on a concrete
  input.\<close>

lemmas str_eval = ascii_def lits_def is_space_def is_digit_def is_lower_def is_dot_def
  is_any_def is_quote_def is_line_term_def trim_def startsWith_def endsWith_def

lemmas rx_eval = rx_match_def group1_def between_def rep_counts_def prev_after_def
  at_bol_def at_eol_def

lemmas fs_eval = existsSync_def readFileSync_def readdirSync_def writeFileSync_def
  basename_def dirname_def relative_parts_def

lemmas meta_eval = parseSkillMetadata_def rx_frontmatter_def rx_name_line_def
  rx_description_line_def

lemmas scan_eval = collectStats_def scanSkillDirs_def SKILLS_DIR_def obj_get_def
  prototype_keys_def

lemma obj_entries_Nil [simp]: "obj_entries [] = []"
  by (simp add: obj_entries_def)

text \<open>A repository with one skill \<^verbatim>\<open>@a/x\<close> and a README whose count is out of date.\<close>

definition example_repo :: node where
  "example_repo =
     Dir [(ascii ''repo'',
       Dir [(ascii ''README.md'', File ([zh_gong] @ ascii '' 41 '' @ [zh_ge] @ ascii '' Skills'')),
            (ascii ''skills'',
             Dir [(ascii ''@a'',
               Dir [(ascii ''x'',
                 Dir [(ascii ''SKILL.md'',
                   File (ascii ''---'' @ [10] @ ascii ''name: foo'' @ [10] @ ascii ''---''
                         @ [10]))])])])])]"

section \<open>The absent skills directory\<close>

text \<open>
  C8. If the skills directory does not exist, \<^verbatim>\<open>scanSkillDirs\<close> returns an empty list
  of marker files and an empty list of broken directories, without an error;
  \<^verbatim>\<open>collectStats\<close> then returns a table from which \<^verbatim>\<open>main\<close> computes
  \<^verbatim>\<open>totalCount = 0\<close> and \<^verbatim>\<open>sourceCount = 0\<close>.
\<close>

theorem absent_root_gives_zero_counts:
  assumes "\<not> existsSync fs (SKILLS_DIR ROOT_DIR)"
  shows "scanSkillDirs fs (SKILLS_DIR ROOT_DIR) = Inr ([], [])
    \<and> (\<exists>statsBySource. collectStats ROOT_DIR fs = Inr (statsBySource, [])
          \<and> totalCount_of statsBySource = 0 \<and> sourceCount_of statsBySource = 0)"
  using assms
  by (simp add: scanSkillDirs_def collectStats_def totalCount_of_def sourceCount_of_def
      add_lengths_def obj_keys_def)

theorem absent_root_gives_zero_counts_witness:
  "\<not> existsSync (Dir []) (SKILLS_DIR [ascii ''repo''])
   \<and> scanSkillDirs (Dir []) (SKILLS_DIR [ascii ''repo'']) = Inr ([], [])
   \<and> (\<exists>statsBySource. collectStats [ascii ''repo''] (Dir []) = Inr (statsBySource, [])
          \<and> totalCount_of statsBySource = 0 \<and> sourceCount_of statsBySource = 0)"
proof -
  have h: "\<not> existsSync (Dir []) (SKILLS_DIR [ascii ''repo''])"
    by (simp add: existsSync_def SKILLS_DIR_def)
  show ?thesis
    using h absent_root_gives_zero_counts [OF h] by simp
qed

section \<open>Reporting without \<^verbatim>\<open>--fix\<close>\<close>

text \<open>
  C9. When the argument list does not contain \<^verbatim>\<open>--fix\<close>, the program writes no file:
  the file system after \<^verbatim>\<open>main\<close> is the file system before it, whatever the other
  arguments, whatever the reconciliation finds, and also when the run ends with an error.
\<close>

theorem no_fix_no_write:
  assumes "ascii ''--fix'' \<notin> set args"
  shows "snd (main inherited_has ROOT_DIR args fs) = fs"
  using assms
  by (simp add: main_def Let_def split: sum.splits option.splits)

theorem no_fix_no_write_witness:
  "ascii ''--fix'' \<notin> set [ascii ''--i18n'']
   \<and> main (\<lambda>s k. False) [ascii ''repo''] [ascii ''--i18n''] example_repo = (None, example_repo)"
proof -
  have h: "ascii ''--fix'' \<notin> set [ascii ''--i18n'']"
    by (simp add: ascii_def)
  have "fst (main (\<lambda>s k. False) [ascii ''repo''] [ascii ''--i18n''] example_repo) = None"
    by (simp add: main_def example_repo_def scan_eval meta_eval str_eval rx_eval fs_eval Let_def)
  then show ?thesis
    using h no_fix_no_write [OF h, of "\<lambda>s k. False" "[ascii ''repo'']" example_repo]
    by (metis prod.collapse)
qed

section \<open>The two levels of the skills directory\<close>

text \<open>
  A file system is well formed when the names in a directory are distinct and each is a
  single path segment. The candidates of the scan are described by the paths that exist,
  not by the scan.
\<close>

definition valid_name :: "jsstr \<Rightarrow> bool" where
  "valid_name n = (n \<noteq> [] \<and> 47 \<notin> set n \<and> 0 \<notin> set n \<and> n \<noteq> ascii ''.'' \<and> n \<noteq> ascii ''..'')"

fun wf_node :: "node \<Rightarrow> bool"
  and wf_entries :: "(jsstr \<times> node) list \<Rightarrow> bool" where
  "wf_node (File c) = True"
| "wf_node (Dir es) = (distinct (map fst es) \<and> wf_entries es)"
| "wf_entries [] = True"
| "wf_entries (e # es) = (valid_name (fst e) \<and> wf_node (snd e) \<and> wf_entries es)"

definition is_directory :: "node \<Rightarrow> path \<Rightarrow> bool" where
  "is_directory fs p = (case lookup fs p of Some (Dir es) \<Rightarrow> True | _ \<Rightarrow> False)"

definition candidate :: "node \<Rightarrow> path \<Rightarrow> jsstr \<Rightarrow> jsstr \<Rightarrow> bool" where
  "candidate fs skillsDir d e =
     (startsWith d (ascii ''@'') \<and> is_directory fs (skillsDir @ [d]) \<and> is_directory fs (skillsDir @ [d, e]))"

definition marker_path :: "path \<Rightarrow> jsstr \<Rightarrow> jsstr \<Rightarrow> path" where
  "marker_path skillsDir d e = skillsDir @ [d, e, ascii ''SKILL.md'']"


definition marker_dirs :: "node \<Rightarrow> path \<Rightarrow> (jsstr \<times> jsstr) set" where
  "marker_dirs fs skillsDir =
     {(d, e). candidate fs skillsDir d e \<and> existsSync fs (marker_path skillsDir d e)}"


text \<open>A skills directory with a skill \<^verbatim>\<open>@a/x\<close>, a directory \<^verbatim>\<open>@a/y\<close> without a marker
  file, a marker file one level too deep, a file among the sources and a first-level
  directory without \<^verbatim>\<open>@\<close>.\<close>

definition example_tree :: node where
  "example_tree =
     Dir [(ascii ''repo'',
       Dir [(ascii ''skills'',
         Dir [(ascii ''@a'',
                Dir [(ascii ''x'',
                       Dir [(ascii ''SKILL.md'', File (ascii ''# x'')),
                            (ascii ''examples'',
                             Dir [(ascii ''SKILL.md'', File (ascii ''# nested''))])]),
                     (ascii ''y'', Dir [(ascii ''notes.md'', File [])]),
                     (ascii ''README.md'', File [])]),
              (ascii ''@file'', File []),
              (ascii ''docs'',
                Dir [(ascii ''z'', Dir [(ascii ''SKILL.md'', File (ascii ''# z''))])])])])]"

lemma lookup_in_map_of:
  "lookup_in es x p = (case map_of es x of None \<Rightarrow> None | Some n \<Rightarrow> lookup n p)"
  by (induction es) auto

lemma lookup_Dir_Cons: "lookup (Dir es) (x # p) = (case map_of es x of None \<Rightarrow> None | Some n \<Rightarrow> lookup n p)"
  by (simp add: lookup_in_map_of)

lemma lookup_Nil [simp]: "lookup n [] = Some n"
  by (cases n) auto

lemma lookup_append:
  "lookup n (p @ q) = (case lookup n p of None \<Rightarrow> None | Some m \<Rightarrow> lookup m q)"
proof (induction p arbitrary: n)
  case Nil
  then show ?case by simp
next
  case (Cons x p)
  show ?case
  proof (cases n)
    case (File c)
    then show ?thesis by simp
  next
    case (Dir es)
    then show ?thesis
      using Cons by (simp add: lookup_in_map_of split: option.splits)
  qed
qed

lemma wf_entries_iff: "wf_entries es = (\<forall>e \<in> set es. valid_name (fst e) \<and> wf_node (snd e))"
  by (induction es) auto

lemma wf_lookup: "wf_node n \<Longrightarrow> lookup n p = Some m \<Longrightarrow> wf_node m"
proof (induction p arbitrary: n)
  case Nil
  then show ?case by simp
next
  case (Cons x p)
  show ?case
  proof (cases n)
    case (File c)
    with Cons show ?thesis by simp
  next
    case (Dir es)
    with Cons.prems obtain k where k: "map_of es x = Some k" "lookup k p = Some m"
      by (auto simp: lookup_in_map_of split: option.splits)
    then have "(x, k) \<in> set es" by (simp add: map_of_SomeD)
    with Cons.prems Dir have "wf_node k" by (auto simp: wf_entries_iff)
    with Cons.IH k show ?thesis by blast
  qed
qed


definition mk_dirent :: "jsstr \<times> node \<Rightarrow> dirent" where
  "mk_dirent e = \<lparr>name = fst e, isDirectory = is_dir (snd e)\<rparr>"

definition dir_entries :: "node \<Rightarrow> path \<Rightarrow> dirent list" where
  "dir_entries fs p = (case readdirSync fs p of Inr l \<Rightarrow> l | Inl e \<Rightarrow> [])"

definition skill_results :: "node \<Rightarrow> path \<Rightarrow> dirent list \<Rightarrow> path list" where
  "skill_results fs sd ents =
     map (\<lambda>e. sd @ [name e, ascii ''SKILL.md''])
       (filter (\<lambda>e. isDirectory e \<and> existsSync fs (sd @ [name e, ascii ''SKILL.md''])) ents)"

definition skill_broken :: "node \<Rightarrow> path \<Rightarrow> jsstr \<Rightarrow> dirent list \<Rightarrow> broken_dir list" where
  "skill_broken fs sd sn ents =
     map (\<lambda>e. \<lparr>broken_source = drop 1 sn, broken_id = name e, broken_dir = sd @ [name e]\<rparr>)
       (filter (\<lambda>e. isDirectory e \<and> \<not> existsSync fs (sd @ [name e, ascii ''SKILL.md''])) ents)"

definition source_ok :: "dirent \<Rightarrow> bool" where
  "source_ok e = (isDirectory e \<and> startsWith (name e) (ascii ''@''))"

lemma scan_skill_entries_eq:
  "scan_skill_entries fs sd sn ents acc =
     (fst acc @ skill_results fs sd ents, snd acc @ skill_broken fs sd sn ents)"
proof (induction ents arbitrary: acc)
  case Nil
  then show ?case by (simp add: skill_results_def skill_broken_def)
next
  case (Cons e ents)
  obtain r b where acc: "acc = (r, b)" by (cases acc)
  show ?case
    unfolding acc
    by (simp add: Cons.IH skill_results_def skill_broken_def Let_def)
qed

lemma readdirSync_dir_entries:
  "readdirSync fs p = Inr l \<Longrightarrow> dir_entries fs p = l"
  by (simp add: dir_entries_def)

lemma scan_source_entries_eq:
  assumes "\<forall>e \<in> set ents. source_ok e \<longrightarrow> (\<exists>l. readdirSync fs (S @ [name e]) = Inr l)"
  shows "scan_source_entries fs S ents acc =
     Inr (fst acc @ concat (map (\<lambda>e. skill_results fs (S @ [name e]) (dir_entries fs (S @ [name e])))
                             (filter source_ok ents)),
          snd acc @ concat (map (\<lambda>e. skill_broken fs (S @ [name e]) (name e) (dir_entries fs (S @ [name e])))
                             (filter source_ok ents)))"
  using assms
proof (induction ents arbitrary: acc)
  case Nil
  then show ?case by simp
next
  case (Cons e ents)
  show ?case
  proof (cases "source_ok e")
    case False
    then show ?thesis
      using Cons by (auto simp: source_ok_def)
  next
    case True
    with Cons.prems obtain l where l: "readdirSync fs (S @ [name e]) = Inr l" by auto
    have de: "dir_entries fs (S @ [name e]) = l" using l by (rule readdirSync_dir_entries)
    show ?thesis
      using True Cons l de
      by (simp add: source_ok_def Let_def scan_skill_entries_eq)
  qed
qed

lemma readdirSync_Dir:
  "lookup fs p = Some (Dir es) \<Longrightarrow> readdirSync fs p = Inr (map mk_dirent es)"
  by (simp add: readdirSync_def mk_dirent_def)

lemma dir_entries_Dir:
  "lookup fs p = Some (Dir es) \<Longrightarrow> dir_entries fs p = map mk_dirent es"
  by (simp add: dir_entries_def readdirSync_Dir)

lemma dir_entries_not_dir:
  "\<not> is_directory fs p \<Longrightarrow> dir_entries fs p = []"
  by (auto simp: dir_entries_def readdirSync_def is_directory_def split: option.splits node.splits)

lemma is_directory_child:
  assumes "lookup fs p = Some (Dir es)" "distinct (map fst es)"
  shows "is_directory fs (p @ [x]) = (\<exists>e \<in> set es. fst e = x \<and> is_dir (snd e))"
proof -
  have "lookup fs (p @ [x]) = map_of es x"
    using assms(1) by (simp add: lookup_append lookup_in_map_of split: option.splits)
  moreover have "(\<exists>es'. map_of es x = Some (Dir es')) = (\<exists>e \<in> set es. fst e = x \<and> is_dir (snd e))"
  proof
    assume "\<exists>es'. map_of es x = Some (Dir es')"
    then obtain es' where "map_of es x = Some (Dir es')" by blast
    then have "(x, Dir es') \<in> set es" by (rule map_of_SomeD)
    then show "\<exists>e \<in> set es. fst e = x \<and> is_dir (snd e)" by force
  next
    assume "\<exists>e \<in> set es. fst e = x \<and> is_dir (snd e)"
    then obtain e where e: "e \<in> set es" "fst e = x" "is_dir (snd e)" by blast
    then obtain es' where "snd e = Dir es'" by (cases "snd e") auto
    with e have "(x, Dir es') \<in> set es" by (metis prod.collapse)
    with assms(2) have "map_of es x = Some (Dir es')" by simp
    then show "\<exists>es'. map_of es x = Some (Dir es')" by blast
  qed
  ultimately show ?thesis
    by (auto simp: is_directory_def split: option.splits node.splits)
qed

lemma is_directory_parent:
  "is_directory fs (p @ [x]) \<Longrightarrow> is_directory fs p"
  by (cases "lookup fs p")
     (auto simp: is_directory_def lookup_append split: option.splits node.splits if_splits)

lemma wf_dir_distinct:
  "wf_node fs \<Longrightarrow> lookup fs p = Some (Dir es) \<Longrightarrow> distinct (map fst es)"
  using wf_lookup by fastforce

lemma dirent_exists_iff:
  assumes "wf_node fs"
  shows "(\<exists>ent \<in> set (dir_entries fs p). isDirectory ent \<and> name ent = x) = is_directory fs (p @ [x])"
proof (cases "is_directory fs p")
  case False
  then show ?thesis
    using is_directory_parent dir_entries_not_dir by fastforce
next
  case True
  then obtain es where es: "lookup fs p = Some (Dir es)"
    by (auto simp: is_directory_def split: option.splits node.splits)
  have d: "distinct (map fst es)" using assms es by (rule wf_dir_distinct)
  show ?thesis
    unfolding is_directory_child [OF es d] dir_entries_Dir [OF es]
    by (auto simp: mk_dirent_def)
qed

lemma dirent_names_distinct:
  assumes "wf_node fs"
  shows "distinct (map name (dir_entries fs p))"
proof (cases "is_directory fs p")
  case False
  then show ?thesis by (simp add: dir_entries_not_dir)
next
  case True
  then obtain es where es: "lookup fs p = Some (Dir es)"
    by (auto simp: is_directory_def split: option.splits node.splits)
  have d: "distinct (map fst es)" using assms es by (rule wf_dir_distinct)
  have "map name (map mk_dirent es) = map fst es"
    by (simp add: mk_dirent_def)
  with d show ?thesis by (simp add: dir_entries_Dir [OF es] del: map_map)
qed


lemma distinct_concat_map:
  assumes "distinct (map k xs)"
    and "\<forall>x \<in> set xs. distinct (f x)"
    and "\<forall>x \<in> set xs. \<forall>y \<in> set (f x). g y = k x"
  shows "distinct (concat (map f xs))"
  using assms
proof (induction xs)
  case Nil
  then show ?case by simp
next
  case (Cons x xs)
  have "set (f x) \<inter> set (concat (map f xs)) = {}"
  proof (rule ccontr)
    assume "set (f x) \<inter> set (concat (map f xs)) \<noteq> {}"
    then obtain y x' where y: "y \<in> set (f x)" "x' \<in> set xs" "y \<in> set (f x')" by auto
    with Cons.prems(3) have "g y = k x" "g y = k x'" by auto
    then have "k x = k x'" by simp
    then have "k x \<in> k ` set xs" using y(2) by (simp add: image_iff) blast
    with Cons.prems(1) show False by simp
  qed
  with Cons show ?case by simp
qed

lemma distinct_skill_results:
  assumes "distinct (map name ents)"
  shows "distinct (skill_results fs sd ents)"
proof -
  have "inj_on (\<lambda>e. sd @ [name e, ascii ''SKILL.md'']) (set ents)"
    using assms by (auto simp: inj_on_def distinct_map)
  then show ?thesis
    using assms unfolding skill_results_def
    by (auto simp: distinct_map intro: inj_on_subset dest: distinct_map_filter)
qed

lemma distinct_skill_broken:
  assumes "distinct (map name ents)"
  shows "distinct (skill_broken fs sd sn ents)"
proof -
  have "inj_on (\<lambda>e. \<lparr>broken_source = drop 1 sn, broken_id = name e, broken_dir = sd @ [name e]\<rparr>) (set ents)"
    using assms by (auto simp: inj_on_def distinct_map)
  then show ?thesis
    using assms unfolding skill_broken_def
    by (auto simp: distinct_map intro: inj_on_subset dest: distinct_map_filter)
qed

lemma scanSkillDirs_eq:
  assumes wf: "wf_node fs" and dir: "is_directory fs S"
  shows "scanSkillDirs fs S =
     Inr (concat (map (\<lambda>e. skill_results fs (S @ [name e]) (dir_entries fs (S @ [name e])))
                    (filter source_ok (dir_entries fs S))),
          concat (map (\<lambda>e. skill_broken fs (S @ [name e]) (name e) (dir_entries fs (S @ [name e])))
                    (filter source_ok (dir_entries fs S))))"
proof -
  obtain es where es: "lookup fs S = Some (Dir es)"
    using dir by (auto simp: is_directory_def split: option.splits node.splits)
  have rd: "readdirSync fs S = Inr (dir_entries fs S)"
    using es by (simp add: readdirSync_Dir dir_entries_Dir)
  have ex: "existsSync fs S" using es by (simp add: existsSync_def)
  have sub: "\<forall>e \<in> set (dir_entries fs S). source_ok e \<longrightarrow> (\<exists>l. readdirSync fs (S @ [name e]) = Inr l)"
  proof (intro ballI impI)
    fix e assume e: "e \<in> set (dir_entries fs S)" "source_ok e"
    then have "\<exists>ent \<in> set (dir_entries fs S). isDirectory ent \<and> name ent = name e"
      by (auto simp: source_ok_def)
    then have "is_directory fs (S @ [name e])"
      using dirent_exists_iff [OF wf] by blast
    then show "\<exists>l. readdirSync fs (S @ [name e]) = Inr l"
      by (auto simp: is_directory_def readdirSync_def split: option.splits node.splits)
  qed
  show ?thesis
    using ex rd scan_source_entries_eq [OF sub, of "([], [])"]
    by (simp add: scanSkillDirs_def)
qed

lemma candidate_dirents:
  assumes wf: "wf_node fs"
  shows "candidate fs S d e =
      (\<exists>ent \<in> set (dir_entries fs S). source_ok ent \<and> name ent = d
         \<and> (\<exists>e2 \<in> set (dir_entries fs (S @ [d])). isDirectory e2 \<and> name e2 = e))"
proof -
  have "is_directory fs (S @ [d, e]) = is_directory fs ((S @ [d]) @ [e])" by simp
  then show ?thesis
    unfolding candidate_def source_ok_def
    using dirent_exists_iff [OF wf, of S d] dirent_exists_iff [OF wf, of "S @ [d]" e]
    by auto
qed

lemma distinct_source_names:
  assumes "wf_node fs"
  shows "distinct (map name (filter source_ok (dir_entries fs S)))"
  using dirent_names_distinct [OF assms, of S] by (rule distinct_map_filter)

lemma scan_results_distinct:
  assumes wf: "wf_node fs"
  shows "distinct (concat (map (\<lambda>e. skill_results fs (S @ [name e]) (dir_entries fs (S @ [name e])))
                    (filter source_ok (dir_entries fs S))))"
proof (rule distinct_concat_map [where k = name and g = "\<lambda>p. p ! length S"])
  let ?srcs = "filter source_ok (dir_entries fs S)"
  show "distinct (map name ?srcs)" using wf by (rule distinct_source_names)
  show "\<forall>x \<in> set ?srcs. distinct (skill_results fs (S @ [name x]) (dir_entries fs (S @ [name x])))"
    using distinct_skill_results dirent_names_distinct [OF wf] by blast
  show "\<forall>x \<in> set ?srcs. \<forall>y \<in> set (skill_results fs (S @ [name x]) (dir_entries fs (S @ [name x]))).
          y ! length S = name x"
    by (auto simp: skill_results_def nth_append)
qed

lemma scan_results_set:
  assumes wf: "wf_node fs"
  shows "set (concat (map (\<lambda>e. skill_results fs (S @ [name e]) (dir_entries fs (S @ [name e])))
                    (filter source_ok (dir_entries fs S)))) =
      {marker_path S d e | d e. candidate fs S d e \<and> existsSync fs (marker_path S d e)}"
  unfolding candidate_dirents [OF wf] by (auto simp: skill_results_def marker_path_def)

text \<open>
  C10. For a well-formed file system in which the skills directory is a directory,
  \<^verbatim>\<open>scanSkillDirs\<close> returns without an error, and its two lists partition the
  candidates: the second-level directories of the first-level directories whose name
  starts with \<^verbatim>\<open>@\<close>. A candidate's marker path is in the list of marker files, once, when
  the directory holds \<^verbatim>\<open>SKILL.md\<close>; otherwise its record is in the list of broken
  directories, once. Nothing else is in either list (so no file at either level, and
  nothing under a first-level name without \<^verbatim>\<open>@\<close>), and no directory is in both.
\<close>

theorem scanner_partitions_candidates:
  assumes wf: "wf_node fs" and dir: "is_directory fs skillsDir"
  shows "\<exists>results broken.
     scanSkillDirs fs skillsDir = Inr (results, broken)
     \<and> distinct results \<and> distinct broken
     \<and> set results =
         {marker_path skillsDir d e | d e.
            candidate fs skillsDir d e \<and> existsSync fs (marker_path skillsDir d e)}
     \<and> set broken =
         {\<lparr>broken_source = drop 1 d, broken_id = e, broken_dir = skillsDir @ [d, e]\<rparr> | d e.
            candidate fs skillsDir d e \<and> \<not> existsSync fs (marker_path skillsDir d e)}
     \<and> dirname ` set results \<inter> broken_dir ` set broken = {}"
proof -
  let ?S = skillsDir
  let ?srcs = "filter source_ok (dir_entries fs ?S)"
  let ?results = "concat (map (\<lambda>e. skill_results fs (?S @ [name e]) (dir_entries fs (?S @ [name e]))) ?srcs)"
  let ?broken = "concat (map (\<lambda>e. skill_broken fs (?S @ [name e]) (name e) (dir_entries fs (?S @ [name e]))) ?srcs)"
  have scan: "scanSkillDirs fs ?S = Inr (?results, ?broken)"
    using wf dir by (rule scanSkillDirs_eq)
  have d1: "distinct ?results"
    using wf by (rule scan_results_distinct)
  have d2: "distinct ?broken"
  proof (rule distinct_concat_map [where k = name and g = "\<lambda>b. broken_dir b ! length ?S"])
    show "distinct (map name ?srcs)" using wf by (rule distinct_source_names)
    show "\<forall>x \<in> set ?srcs. distinct (skill_broken fs (?S @ [name x]) (name x) (dir_entries fs (?S @ [name x])))"
      using distinct_skill_broken dirent_names_distinct [OF wf] by blast
    show "\<forall>x \<in> set ?srcs. \<forall>y \<in> set (skill_broken fs (?S @ [name x]) (name x) (dir_entries fs (?S @ [name x]))).
            broken_dir y ! length ?S = name x"
      by (auto simp: skill_broken_def nth_append)
  qed
  have s1: "set ?results =
      {marker_path ?S d e | d e. candidate fs ?S d e \<and> existsSync fs (marker_path ?S d e)}"
    using wf by (rule scan_results_set)
  have s2: "set ?broken =
      {\<lparr>broken_source = drop 1 d, broken_id = e, broken_dir = ?S @ [d, e]\<rparr> | d e.
          candidate fs ?S d e \<and> \<not> existsSync fs (marker_path ?S d e)}"
    unfolding candidate_dirents [OF wf] by (auto simp: skill_broken_def marker_path_def)
  have s3: "dirname ` set ?results \<inter> broken_dir ` set ?broken = {}"
    unfolding s1 s2 by (auto simp: marker_path_def dirname_def butlast_append)
  show ?thesis
    using scan d1 d2 s1 s2 s3 by blast
qed


theorem scanner_partitions_candidates_witness:
  "wf_node example_tree
   \<and> is_directory example_tree [ascii ''repo'', ascii ''skills'']
   \<and> scanSkillDirs example_tree [ascii ''repo'', ascii ''skills''] =
       Inr ([map ascii [''repo'', ''skills'', ''@a'', ''x'', ''SKILL.md'']],
            [\<lparr>broken_source = ascii ''a'', broken_id = ascii ''y'',
              broken_dir = map ascii [''repo'', ''skills'', ''@a'', ''y'']\<rparr>])
   \<and> {map ascii [''repo'', ''skills'', ''@a'', ''x'', ''SKILL.md'']} =
         {marker_path [ascii ''repo'', ascii ''skills''] d e | d e.
            candidate example_tree [ascii ''repo'', ascii ''skills''] d e
            \<and> existsSync example_tree (marker_path [ascii ''repo'', ascii ''skills''] d e)}"
proof -
  let ?S = "[ascii ''repo'', ascii ''skills'']"
  have wf: "wf_node example_tree"
    by (simp add: example_tree_def valid_name_def ascii_def)
  have dir: "is_directory example_tree ?S"
    by (simp add: example_tree_def is_directory_def ascii_def)
  have run: "scanSkillDirs example_tree ?S =
       Inr ([map ascii [''repo'', ''skills'', ''@a'', ''x'', ''SKILL.md'']],
            [\<lparr>broken_source = ascii ''a'', broken_id = ascii ''y'',
              broken_dir = map ascii [''repo'', ''skills'', ''@a'', ''y'']\<rparr>])"
    by (simp add: scanSkillDirs_def example_tree_def str_eval fs_eval)
  from scanner_partitions_candidates [OF wf dir] obtain results broken
    where all: "scanSkillDirs example_tree ?S = Inr (results, broken)
     \<and> distinct results \<and> distinct broken
     \<and> set results =
         {marker_path ?S d e | d e.
            candidate example_tree ?S d e \<and> existsSync example_tree (marker_path ?S d e)}
     \<and> set broken =
         {\<lparr>broken_source = drop 1 d, broken_id = e, broken_dir = ?S @ [d, e]\<rparr> | d e.
            candidate example_tree ?S d e \<and> \<not> existsSync example_tree (marker_path ?S d e)}
     \<and> dirname ` set results \<inter> broken_dir ` set broken = {}"
    by (elim exE)
  from all have scan: "scanSkillDirs example_tree ?S = Inr (results, broken)"
    by (rule conjunct1)
  from all have sr: "set results =
         {marker_path ?S d e | d e.
            candidate example_tree ?S d e \<and> existsSync example_tree (marker_path ?S d e)}"
    by (elim conjE)
  have r: "results = [map ascii [''repo'', ''skills'', ''@a'', ''x'', ''SKILL.md'']]"
    using scan unfolding run by (simp only: sum.inject prod.inject)
  have eq: "{map ascii [''repo'', ''skills'', ''@a'', ''x'', ''SKILL.md'']} =
         {marker_path ?S d e | d e.
            candidate example_tree ?S d e \<and> existsSync example_tree (marker_path ?S d e)}"
    using sr unfolding r by (simp only: list.set)
  show ?thesis
    by (intro conjI) (rule wf, rule dir, rule run, rule eq)
qed

lemma obj_set_keys:
  "map fst (obj_set obj k v) = (if k \<in> fst ` set obj then map fst obj else map fst obj @ [k])"
  by (induction obj) auto

lemma obj_set_distinct:
  "distinct (map fst obj) \<Longrightarrow> distinct (map fst (obj_set obj k v))"
  by (simp add: obj_set_keys)

lemma obj_set_sum_new:
  "map_of obj k = None \<Longrightarrow>
   sum_list (map (length \<circ> snd) (obj_set obj k v)) = sum_list (map (length \<circ> snd) obj) + length v"
  by (induction obj) (auto split: if_splits)

lemma obj_set_sum_old:
  "map_of obj k = Some v0 \<Longrightarrow>
   sum_list (map (length \<circ> snd) (obj_set obj k (v0 @ [x]))) = Suc (sum_list (map (length \<circ> snd) obj))"
  by (induction obj) (auto split: if_splits)

lemma obj_get_cases:
  "obj_get obj k = Undefined \<Longrightarrow> map_of obj k = None"
  "obj_get obj k = Own v \<Longrightarrow> map_of obj k = Some v"
  by (auto simp: obj_get_def split: option.splits if_splits)

lemma relative_segments_Nil: "relative_segments [] xs = xs"
  by (cases xs) auto

lemma relative_segments_prefix: "relative_segments S (S @ xs) = xs"
  by (induction S) (auto simp: relative_segments_Nil)

lemma relative_parts_marker:
  "relative_parts S (marker_path S d e) = [d, e, ascii ''SKILL.md'']"
  by (simp add: relative_parts_def marker_path_def relative_segments_prefix)

lemma collect_files_step:
  assumes "startsWith d (ascii ''@'')"
  shows "collect_files fs S (marker_path S d e # ps) obj =
     (case parseSkillMetadata fs (marker_path S d e) of
        Inl err \<Rightarrow> Inl err
      | Inr meta \<Rightarrow>
          (case obj_get obj (drop 1 d) of
             Inherited \<Rightarrow> Inl TypeError
           | Undefined \<Rightarrow>
               collect_files fs S ps
                 (obj_set obj (drop 1 d)
                    [\<lparr>skill_id = e, skill_path = marker_path S d e, skill_name = meta_name meta,
                      skill_description = meta_description meta\<rparr>])
           | Own skills \<Rightarrow>
               collect_files fs S ps
                 (obj_set obj (drop 1 d)
                    (skills @ [\<lparr>skill_id = e, skill_path = marker_path S d e,
                                skill_name = meta_name meta,
                                skill_description = meta_description meta\<rparr>]))))"
  using assms
  apply (simp only: collect_files.simps relative_parts_marker Let_def)
  apply (simp split: sum.splits lookup_result.splits)
  done

lemma collect_files_inv:
  assumes "\<forall>p \<in> set ps. \<exists>d e. p = marker_path S d e \<and> startsWith d (ascii ''@'')"
    and "collect_files fs S ps obj = Inr stats"
    and "distinct (map fst obj)"
  shows "distinct (map fst stats)
    \<and> sum_list (map (length \<circ> snd) stats) = sum_list (map (length \<circ> snd) obj) + length ps
    \<and> set (map fst stats) = set (map fst obj) \<union> (\<lambda>p. drop 1 (p ! length S)) ` set ps"
  using assms
proof (induction ps arbitrary: obj)
  case Nil
  then show ?case by simp
next
  case (Cons p ps)
  from Cons.prems(1) obtain d e where p: "p = marker_path S d e" and at: "startsWith d (ascii ''@'')"
    by auto
  have key: "drop 1 (p ! length S) = drop 1 d"
    by (simp add: p marker_path_def nth_append)
  note step = collect_files_step [OF at, of fs S e ps obj]
  have run0: "collect_files fs S (marker_path S d e # ps) obj = Inr stats"
    using Cons.prems(2) p by simp
  obtain meta where meta: "parseSkillMetadata fs (marker_path S d e) = Inr meta"
    using run0 unfolding step by (cases "parseSkillMetadata fs (marker_path S d e)") simp_all
  let ?entry = "\<lparr>skill_id = e, skill_path = marker_path S d e, skill_name = meta_name meta,
                  skill_description = meta_description meta\<rparr>"
  have rest: "\<forall>q \<in> set ps. \<exists>d e. q = marker_path S d e \<and> startsWith d (ascii ''@'')"
    using Cons.prems(1) by simp
  show ?case
  proof (cases "obj_get obj (drop 1 d)")
    case Inherited
    then show ?thesis
      using run0 unfolding step meta by simp
  next
    case Undefined
    then have none: "map_of obj (drop 1 d) = None" by (rule obj_get_cases)
    let ?obj = "obj_set obj (drop 1 d) [?entry]"
    have run: "collect_files fs S ps ?obj = Inr stats"
      using run0 unfolding step meta Undefined by simp
    have dist: "distinct (map fst ?obj)" using Cons.prems(3) by (rule obj_set_distinct)
    have notin: "drop 1 d \<notin> fst ` set obj"
      using none by (simp add: map_of_eq_None_iff)
    have keys: "set (map fst ?obj) = insert (drop 1 d) (set (map fst obj))"
      using notin by (simp add: obj_set_keys)
    have sum: "sum_list (map (length \<circ> snd) ?obj) = Suc (sum_list (map (length \<circ> snd) obj))"
      using obj_set_sum_new [OF none, of "[?entry]"] by simp
    from Cons.IH [OF rest run dist] show ?thesis
      unfolding keys sum using key by (simp add: comp_def)
  next
    case (Own skills)
    then have some: "map_of obj (drop 1 d) = Some skills" by (rule obj_get_cases)
    let ?obj = "obj_set obj (drop 1 d) (skills @ [?entry])"
    have run: "collect_files fs S ps ?obj = Inr stats"
      using run0 unfolding step meta Own by simp
    have dist: "distinct (map fst ?obj)" using Cons.prems(3) by (rule obj_set_distinct)
    have isin: "drop 1 d \<in> fst ` set obj"
      using some by (metis domI dom_map_of_conv_image_fst)
    have keys: "set (map fst ?obj) = insert (drop 1 d) (set (map fst obj))"
      using isin by (auto simp: obj_set_keys)
    have sum: "sum_list (map (length \<circ> snd) ?obj) = Suc (sum_list (map (length \<circ> snd) obj))"
      by (rule obj_set_sum_old [OF some])
    from Cons.IH [OF rest run dist] show ?thesis
      unfolding keys sum using key by (simp add: comp_def)
  qed
qed

lemma obj_entries_set [simp]: "set (obj_entries obj) = set obj"
  by (auto simp: obj_entries_def)

lemma obj_entries_length [simp]: "length (obj_entries obj) = length obj"
  by (simp add: obj_entries_def sum_length_filter_compl)

lemma obj_entries_distinct:
  assumes "distinct (map fst obj)"
  shows "distinct (map fst (obj_entries obj))"
proof -
  have d: "distinct obj" and i: "inj_on fst (set obj)"
    using assms by (simp_all add: distinct_map)
  have "distinct (obj_entries obj)"
    using d by (auto simp: obj_entries_def)
  moreover have "inj_on fst (set (obj_entries obj))"
    using i by simp
  ultimately show ?thesis by (simp add: distinct_map)
qed

lemma add_lengths_sum:
  "add_lengths obj ks = sum_list (map (\<lambda>k. case map_of obj k of Some l \<Rightarrow> length l | None \<Rightarrow> 0) ks)"
proof -
  have "foldl (\<lambda>t k. t + f k) a ks = a + sum_list (map f ks)" for f :: "jsstr \<Rightarrow> nat" and a
    by (induction ks arbitrary: a) auto
  then show ?thesis by (simp add: add_lengths_def)
qed

lemma totalCount_of_sum:
  assumes "distinct (map fst obj)"
  shows "totalCount_of obj = sum_list (map (length \<circ> snd) obj)"
proof -
  let ?f = "\<lambda>k. case map_of obj k of Some l \<Rightarrow> length l | None \<Rightarrow> 0"
  have dk: "distinct (obj_keys obj)"
    using assms by (simp add: obj_keys_def obj_entries_distinct)
  have sk: "set (obj_keys obj) = set (map fst obj)"
    by (simp add: obj_keys_def)
  have "totalCount_of obj = sum_list (map ?f (sort (obj_keys obj)))"
    by (simp add: totalCount_of_def add_lengths_sum)
  also have "\<dots> = sum ?f (set (sort (obj_keys obj)))"
    using dk by (simp add: sum_list_distinct_conv_sum_set)
  also have "\<dots> = sum ?f (set (map fst obj))"
    using sk by simp
  also have "\<dots> = sum_list (map ?f (map fst obj))"
    using assms by (simp add: sum_list_distinct_conv_sum_set del: map_map)
  also have "\<dots> = sum_list (map (length \<circ> snd) obj)"
  proof -
    have "\<forall>e \<in> set obj. ?f (fst e) = length (snd e)"
      using assms by auto
    then show ?thesis by (simp add: map_eq_conv comp_def cong: map_cong)
  qed
  finally show ?thesis .
qed

lemma sourceCount_of_length: "sourceCount_of obj = length obj"
  by (simp add: sourceCount_of_def obj_keys_def)


lemma marker_dirs_no_root:
  "\<not> is_directory fs S \<Longrightarrow> marker_dirs fs S = {}"
  using is_directory_parent [of fs S]
  by (auto simp: marker_dirs_def candidate_def)

lemma scan_results_markers:
  assumes wf: "wf_node fs" and scan: "scanSkillDirs fs S = Inr (results, broken)"
  shows "distinct results \<and> set results = (\<lambda>(d, e). marker_path S d e) ` marker_dirs fs S"
proof (cases "is_directory fs S")
  case True
  from scanSkillDirs_eq [OF wf True] scan
  have "results = concat (map (\<lambda>e. skill_results fs (S @ [name e]) (dir_entries fs (S @ [name e])))
                    (filter source_ok (dir_entries fs S)))"
    by simp
  then have "distinct results"
    and "set results = {marker_path S d e | d e. candidate fs S d e \<and> existsSync fs (marker_path S d e)}"
    using scan_results_distinct [OF wf, of S] scan_results_set [OF wf, of S] by simp_all
  then show ?thesis by (auto simp: marker_dirs_def)
next
  case False
  then have "results = []"
    using scan
    by (auto simp: scanSkillDirs_def readdirSync_def is_directory_def existsSync_def
        split: option.splits node.splits if_splits)
  then show ?thesis using False by (simp add: marker_dirs_no_root)
qed

lemma inj_marker_path: "inj (\<lambda>(d, e). marker_path S d e)"
  by (auto simp: inj_on_def marker_path_def)

lemma drop1_inj_on_at:
  "inj_on (drop 1) {d. startsWith d (ascii ''@'')}"
proof (rule inj_onI)
  fix x y :: jsstr
  assume "x \<in> {d. startsWith d (ascii ''@'')}" "y \<in> {d. startsWith d (ascii ''@'')}" "drop 1 x = drop 1 y"
  then have "take 1 x = take 1 y" "drop 1 x = drop 1 y"
    by (simp_all add: startsWith_def ascii_def)
  then show "x = y" by (metis append_take_drop_id)
qed

text \<open>
  The counts that \<^verbatim>\<open>main\<close> computes from a table that \<^verbatim>\<open>collectStats\<close> returns on a
  well-formed file system are those of the two fixed levels: \<^verbatim>\<open>totalCount\<close> is the
  number of pairs of a first-level directory whose name starts with \<^verbatim>\<open>@\<close> and a
  second-level directory of it that holds \<^verbatim>\<open>SKILL.md\<close>, and \<^verbatim>\<open>sourceCount\<close> is the number
  of first-level directories in such pairs. A \<^verbatim>\<open>SKILL.md\<close> anywhere else is in no such
  pair and adds to neither count.
\<close>

lemma collectStats_counts:
  assumes wf: "wf_node fs"
    and run: "collectStats ROOT_DIR fs = Inr (statsBySource, broken)"
  shows "totalCount_of statsBySource = card (marker_dirs fs (SKILLS_DIR ROOT_DIR))
    \<and> sourceCount_of statsBySource = card (fst ` marker_dirs fs (SKILLS_DIR ROOT_DIR))"
proof -
  let ?S = "SKILLS_DIR ROOT_DIR"
  let ?M = "marker_dirs fs ?S"
  from run obtain results where scan: "scanSkillDirs fs ?S = Inr (results, broken)"
    and coll: "collect_files fs ?S results [] = Inr statsBySource"
    by (auto simp: collectStats_def split: sum.splits)
  from scan_results_markers [OF wf scan]
  have dr: "distinct results" and sr: "set results = (\<lambda>(d, e). marker_path ?S d e) ` ?M"
    by auto
  have form: "\<forall>p \<in> set results. \<exists>d e. p = marker_path ?S d e \<and> startsWith d (ascii ''@'')"
    unfolding sr by (auto simp: marker_dirs_def candidate_def)
  from collect_files_inv [OF form coll]
  have ds: "distinct (map fst statsBySource)"
    and sum: "sum_list (map (length \<circ> snd) statsBySource) = length results"
    and keys: "set (map fst statsBySource) = (\<lambda>p. drop 1 (p ! length ?S)) ` set results"
    by auto
  have "length results = card (set results)"
    using dr by (simp add: distinct_card)
  also have "\<dots> = card ?M"
    unfolding sr by (rule card_image) (rule inj_on_subset [OF inj_marker_path], simp)
  finally have total: "totalCount_of statsBySource = card ?M"
    using totalCount_of_sum [OF ds] sum by simp
  have nth: "marker_path ?S d e ! length ?S = d" for d e
    by (simp add: marker_path_def nth_append)
  have "(\<lambda>p. drop 1 (p ! length ?S)) ` set results = (\<lambda>x. drop 1 (fst x)) ` ?M"
    unfolding sr image_image by (rule image_cong) (auto simp: nth)
  then have "(\<lambda>p. drop 1 (p ! length ?S)) ` set results = drop 1 ` fst ` ?M"
    by (simp add: image_image)
  then have "set (map fst statsBySource) = drop 1 ` fst ` ?M"
    using keys by simp
  moreover have "card (drop 1 ` fst ` ?M) = card (fst ` ?M)"
  proof (rule card_image)
    have "fst ` ?M \<subseteq> {d. startsWith d (ascii ''@'')}"
      by (auto simp: marker_dirs_def candidate_def)
    then show "inj_on (drop 1) (fst ` ?M)"
      by (rule inj_on_subset [OF drop1_inj_on_at])
  qed
  moreover have "length statsBySource = card (set (map fst statsBySource))"
    using ds by (metis distinct_card length_map)
  ultimately have "sourceCount_of statsBySource = card (fst ` ?M)"
    by (simp add: sourceCount_of_length)
  with total show ?thesis by simp
qed


text \<open>
  When \<^verbatim>\<open>collectStats\<close> returns: the skills directory is a directory or is absent, every
  marker that the scan finds is a file, and no source is named like an inherited property
  of objects.
\<close>

lemma parseSkillMetadata_returns:
  "readFileSync fs p = Inr c \<Longrightarrow> \<exists>meta. parseSkillMetadata fs p = Inr meta"
  by (simp add: parseSkillMetadata_def Let_def split: option.splits)

lemma obj_get_not_inherited:
  "k \<notin> set prototype_keys \<Longrightarrow> obj_get obj k \<noteq> Inherited"
  by (simp add: obj_get_def split: option.splits)

lemma collect_files_returns:
  assumes "\<forall>p \<in> set ps. \<exists>d e. p = marker_path S d e \<and> startsWith d (ascii ''@'')
             \<and> drop 1 d \<notin> set prototype_keys \<and> (\<exists>c. readFileSync fs p = Inr c)"
  shows "\<exists>stats. collect_files fs S ps obj = Inr stats"
  using assms
proof (induction ps arbitrary: obj)
  case Nil
  then show ?case by simp
next
  case (Cons p ps)
  from Cons.prems obtain d e c where p: "p = marker_path S d e"
    and at: "startsWith d (ascii ''@'')" and np: "drop 1 d \<notin> set prototype_keys"
    and rd: "readFileSync fs p = Inr c"
    by auto
  note step = collect_files_step [OF at, of fs S e ps obj]
  from parseSkillMetadata_returns [OF rd] obtain meta
    where meta: "parseSkillMetadata fs (marker_path S d e) = Inr meta"
    unfolding p by blast
  have rest: "\<forall>p \<in> set ps. \<exists>d e. p = marker_path S d e \<and> startsWith d (ascii ''@'')
             \<and> drop 1 d \<notin> set prototype_keys \<and> (\<exists>c. readFileSync fs p = Inr c)"
    using Cons.prems by simp
  show ?case
  proof (cases "obj_get obj (drop 1 d)")
    case Inherited
    with obj_get_not_inherited [OF np, of obj] show ?thesis by simp
  next
    case Undefined
    show ?thesis
      unfolding p step meta Undefined using Cons.IH [OF rest] by simp
  next
    case (Own skills)
    show ?thesis
      unfolding p step meta Own using Cons.IH [OF rest] by simp
  qed
qed

lemma scanSkillDirs_returns:
  assumes wf: "wf_node fs" and root: "is_directory fs S \<or> \<not> existsSync fs S"
  shows "\<exists>results broken. scanSkillDirs fs S = Inr (results, broken)"
proof (cases "is_directory fs S")
  case True
  from scanSkillDirs_eq [OF wf True] show ?thesis by blast
next
  case False
  with root have "\<not> existsSync fs S" by simp
  then show ?thesis by (simp add: scanSkillDirs_def)
qed

lemma collectStats_returns:
  assumes wf: "wf_node fs"
    and root: "is_directory fs (SKILLS_DIR ROOT_DIR) \<or> \<not> existsSync fs (SKILLS_DIR ROOT_DIR)"
    and files: "\<forall>(d, e) \<in> marker_dirs fs (SKILLS_DIR ROOT_DIR).
                  \<exists>c. lookup fs (marker_path (SKILLS_DIR ROOT_DIR) d e) = Some (File c)"
    and names: "\<forall>(d, e) \<in> marker_dirs fs (SKILLS_DIR ROOT_DIR). drop 1 d \<notin> set prototype_keys"
  shows "\<exists>statsBySource broken. collectStats ROOT_DIR fs = Inr (statsBySource, broken)"
proof -
  let ?S = "SKILLS_DIR ROOT_DIR"
  from scanSkillDirs_returns [OF wf root] obtain results broken
    where scan: "scanSkillDirs fs ?S = Inr (results, broken)" by blast
  from scan_results_markers [OF wf scan]
  have sr: "set results = (\<lambda>(d, e). marker_path ?S d e) ` marker_dirs fs ?S" by simp
  have "\<forall>p \<in> set results. \<exists>d e. p = marker_path ?S d e \<and> startsWith d (ascii ''@'')
             \<and> drop 1 d \<notin> set prototype_keys \<and> (\<exists>c. readFileSync fs p = Inr c)"
  proof
    fix p assume "p \<in> set results"
    then obtain d e where de: "(d, e) \<in> marker_dirs fs ?S" and p: "p = marker_path ?S d e"
      unfolding sr by auto
    from de files obtain c where "lookup fs (marker_path ?S d e) = Some (File c)" by auto
    then have "readFileSync fs p = Inr c" by (simp add: readFileSync_def p)
    moreover from de names have "drop 1 d \<notin> set prototype_keys" by auto
    moreover from de have "startsWith d (ascii ''@'')"
      by (simp add: marker_dirs_def candidate_def)
    ultimately show "\<exists>d e. p = marker_path ?S d e \<and> startsWith d (ascii ''@'')
             \<and> drop 1 d \<notin> set prototype_keys \<and> (\<exists>c. readFileSync fs p = Inr c)"
      using p by blast
  qed
  from collect_files_returns [OF this, of "[]"] obtain stats
    where "collect_files fs ?S results [] = Inr stats" by blast
  with scan show ?thesis by (simp add: collectStats_def)
qed

text \<open>
  On such a file system the program computes the counts of the two levels.
\<close>

theorem counts_of_readable_tree:
  assumes wf: "wf_node fs"
    and root: "is_directory fs (SKILLS_DIR ROOT_DIR) \<or> \<not> existsSync fs (SKILLS_DIR ROOT_DIR)"
    and files: "\<forall>(d, e) \<in> marker_dirs fs (SKILLS_DIR ROOT_DIR).
                  \<exists>c. lookup fs (marker_path (SKILLS_DIR ROOT_DIR) d e) = Some (File c)"
    and names: "\<forall>(d, e) \<in> marker_dirs fs (SKILLS_DIR ROOT_DIR). drop 1 d \<notin> set prototype_keys"
  shows "\<exists>statsBySource broken. collectStats ROOT_DIR fs = Inr (statsBySource, broken)
    \<and> totalCount_of statsBySource = card (marker_dirs fs (SKILLS_DIR ROOT_DIR))
    \<and> sourceCount_of statsBySource = card (fst ` marker_dirs fs (SKILLS_DIR ROOT_DIR))"
proof -
  from collectStats_returns [OF wf root files names] obtain statsBySource broken
    where run: "collectStats ROOT_DIR fs = Inr (statsBySource, broken)" by blast
  from collectStats_counts [OF wf run] run show ?thesis by blast
qed

lemma markers_of_scan:
  assumes wf: "wf_node fs"
    and scan: "scanSkillDirs fs S = Inr ([marker_path S d e], broken)"
  shows "marker_dirs fs S = {(d, e)}"
proof -
  let ?f = "\<lambda>(d, e). marker_path S d e"
  from scan_results_markers [OF wf scan]
  have "set [marker_path S d e] = ?f ` marker_dirs fs S"
    by (rule conjunct2)
  then have "?f ` marker_dirs fs S = ?f ` {(d, e)}"
    by simp
  then show ?thesis
    using inj_marker_path [of S] by (simp only: inj_image_eq_iff)
qed

lemma example_tree_markers:
  "marker_dirs example_tree (SKILLS_DIR [ascii ''repo'']) = {(ascii ''@a'', ascii ''x'')}"
proof (rule markers_of_scan)
  show "wf_node example_tree"
    by (simp add: example_tree_def valid_name_def ascii_def)
  show "scanSkillDirs example_tree (SKILLS_DIR [ascii ''repo'']) =
      Inr ([marker_path (SKILLS_DIR [ascii ''repo'']) (ascii ''@a'') (ascii ''x'')],
           [\<lparr>broken_source = ascii ''a'', broken_id = ascii ''y'',
             broken_dir = map ascii [''repo'', ''skills'', ''@a'', ''y'']\<rparr>])"
    by (simp add: scanSkillDirs_def SKILLS_DIR_def marker_path_def example_tree_def str_eval fs_eval)
qed

theorem counts_of_example_tree:
  "\<exists>statsBySource broken. collectStats [ascii ''repo''] example_tree = Inr (statsBySource, broken)
     \<and> totalCount_of statsBySource = 1 \<and> sourceCount_of statsBySource = 1"
proof -
  have wf: "wf_node example_tree"
    by (simp add: example_tree_def valid_name_def ascii_def)
  have root: "is_directory example_tree (SKILLS_DIR [ascii ''repo''])
      \<or> \<not> existsSync example_tree (SKILLS_DIR [ascii ''repo''])"
    by (simp add: example_tree_def is_directory_def SKILLS_DIR_def ascii_def)
  have files: "\<forall>(d, e) \<in> marker_dirs example_tree (SKILLS_DIR [ascii ''repo'']).
      \<exists>c. lookup example_tree (marker_path (SKILLS_DIR [ascii ''repo'']) d e) = Some (File c)"
    unfolding example_tree_markers
    by (simp add: example_tree_def marker_path_def SKILLS_DIR_def ascii_def)
  have names: "\<forall>(d, e) \<in> marker_dirs example_tree (SKILLS_DIR [ascii ''repo'']).
      drop 1 d \<notin> set prototype_keys"
    unfolding example_tree_markers by (simp add: prototype_keys_def ascii_def)
  from counts_of_readable_tree [OF wf root files names]
  show ?thesis unfolding example_tree_markers by simp
qed

text \<open>A skills directory whose only source is named like an inherited property of
  objects.\<close>

definition inherited_name_tree :: node where
  "inherited_name_tree =
     Dir [(ascii ''repo'',
       Dir [(ascii ''skills'',
         Dir [(ascii ''@constructor'',
           Dir [(ascii ''x'', Dir [(ascii ''SKILL.md'', File (ascii ''# x''))])])])])]"

lemma inherited_name_tree_wf: "wf_node inherited_name_tree"
  by (simp add: inherited_name_tree_def valid_name_def ascii_def)

lemma inherited_name_tree_scan:
  "scanSkillDirs inherited_name_tree (SKILLS_DIR [ascii ''repo'']) =
     Inr ([map ascii [''repo'', ''skills'', ''@constructor'', ''x'', ''SKILL.md'']], [])"
  by (simp add: scanSkillDirs_def SKILLS_DIR_def inherited_name_tree_def str_eval fs_eval)

text \<open>
  C1. The claim gives the two counts for every skills tree: \<^verbatim>\<open>totalCount\<close> is the number of
  marker files at the second level, \<^verbatim>\<open>sourceCount\<close> the number of first-level directories
  with \<^verbatim>\<open>@\<close> that hold one. The script misses the source names that an object inherits:
  the tree \<open>inherited_name_tree\<close> is well formed and has the one marker
  \<^verbatim>\<open>@constructor/x/SKILL.md\<close>, which the scan finds, so the claim gives it the counts 1
  and 1; \<^verbatim>\<open>statsBySource[source]\<close> reads the inherited \<^verbatim>\<open>constructor\<close>, no list is stored
  for the source, \<^verbatim>\<open>collectStats\<close> throws a \<^verbatim>\<open>TypeError\<close> at \<^verbatim>\<open>push\<close>, and \<^verbatim>\<open>main\<close> ends
  with that error without a count.
\<close>

theorem inherited_source_name_stops_the_count:
  "wf_node inherited_name_tree
   \<and> marker_dirs inherited_name_tree (SKILLS_DIR [ascii ''repo''])
       = {(ascii ''@constructor'', ascii ''x'')}
   \<and> scanSkillDirs inherited_name_tree (SKILLS_DIR [ascii ''repo'']) =
       Inr ([map ascii [''repo'', ''skills'', ''@constructor'', ''x'', ''SKILL.md'']], [])
   \<and> collectStats [ascii ''repo''] inherited_name_tree = Inl TypeError
   \<and> main (\<lambda>s k. False) [ascii ''repo''] [] inherited_name_tree
       = (Some TypeError, inherited_name_tree)"
proof -
  let ?S = "SKILLS_DIR [ascii ''repo'']"
  let ?M = "marker_dirs inherited_name_tree ?S"
  let ?f = "\<lambda>(d, e). marker_path ?S d e"
  from scan_results_markers [OF inherited_name_tree_wf inherited_name_tree_scan]
  have "set [map ascii [''repo'', ''skills'', ''@constructor'', ''x'', ''SKILL.md'']] = ?f ` ?M"
    by (rule conjunct2)
  moreover have "map ascii [''repo'', ''skills'', ''@constructor'', ''x'', ''SKILL.md'']
      = ?f (ascii ''@constructor'', ascii ''x'')"
    by (simp add: marker_path_def SKILLS_DIR_def)
  ultimately have "?f ` ?M = ?f ` {(ascii ''@constructor'', ascii ''x'')}"
    by simp
  then have m: "?M = {(ascii ''@constructor'', ascii ''x'')}"
    using inj_marker_path [of ?S] by (simp only: inj_image_eq_iff)
  have coll: "collectStats [ascii ''repo''] inherited_name_tree = Inl TypeError"
    by (simp add: inherited_name_tree_def scan_eval meta_eval str_eval rx_eval fs_eval Let_def)
  have run: "main (\<lambda>s k. False) [ascii ''repo''] [] inherited_name_tree
       = (Some TypeError, inherited_name_tree)"
    by (simp add: main_def coll)
  show ?thesis
    by (intro conjI) (rule inherited_name_tree_wf, rule m, rule inherited_name_tree_scan,
        rule coll, rule run)
qed

section \<open>Reconciliation with the registry\<close>

text \<open>The index record that a path finds: the last record with that path.\<close>

definition index_record_at :: "index_entry list \<Rightarrow> jsstr \<Rightarrow> index_entry option" where
  "index_record_at es p =
     (case filter (\<lambda>e. entry_path e = p) es of [] \<Rightarrow> None | xs \<Rightarrow> Some (last xs))"

definition parsed_entries :: "index option \<Rightarrow> index_entry list" where
  "parsed_entries idx = (case idx of None \<Rightarrow> [] | Some i \<Rightarrow> index_entries i)"

lemma map_of_obj_set: "map_of (obj_set obj k v) = (map_of obj)(k \<mapsto> v)"
  by (induction obj) (auto simp: fun_eq_iff)

lemma index_tables_byPath:
  assumes "index_tables es bs bp = Inr (bs', bp')" and "p \<noteq> ascii ''__proto__''"
  shows "map_of bp' p =
     (case filter (\<lambda>e. entry_path e = p) es of [] \<Rightarrow> map_of bp p | xs \<Rightarrow> Some (last xs))"
  using assms
proof (induction es arbitrary: bs bp)
  case Nil
  then show ?case by simp
next
  case (Cons e es)
  let ?bp = "if entry_path e = ascii ''__proto__'' then bp else obj_set bp (entry_path e) e"
  from Cons.prems(1) obtain bs1 where run: "index_tables es bs1 ?bp = Inr (bs', bp')"
    by (auto simp: Let_def split: lookup_result.splits)
  note ih = Cons.IH [OF run Cons.prems(2)]
  show ?case
  proof (cases "entry_path e = p")
    case True
    then have eq: "map_of ?bp p = Some e"
      using Cons.prems(2) by (simp add: map_of_obj_set)
    from ih have "map_of bp' p =
        (case filter (\<lambda>e. entry_path e = p) es of [] \<Rightarrow> Some e | xs \<Rightarrow> Some (last xs))"
      by (simp only: eq)
    with True show ?thesis
      by (cases "filter (\<lambda>e. entry_path e = p) es") simp_all
  next
    case False
    then have eq: "map_of ?bp p = map_of bp p"
      by (simp add: map_of_obj_set)
    from ih have "map_of bp' p =
        (case filter (\<lambda>e. entry_path e = p) es of [] \<Rightarrow> map_of bp p | xs \<Rightarrow> Some (last xs))"
      by (simp only: eq)
    with False show ?thesis by simp
  qed
qed

lemma index_tables_bySource:
  assumes "index_tables es bs bp = Inr (bs', bp')"
  shows "map_of bs' s =
       (case (map_of bs s, filter (\<lambda>e. entry_source e = s) es) of
          (old, []) \<Rightarrow> old
        | (None, xs) \<Rightarrow> Some xs
        | (Some l, xs) \<Rightarrow> Some (l @ xs))"
  using assms
proof (induction es arbitrary: bs bp)
  case Nil
  then show ?case by (simp split: option.splits)
next
  case (Cons e es)
  let ?bp = "if entry_path e = ascii ''__proto__'' then bp else obj_set bp (entry_path e) e"
  show ?case
  proof (cases "obj_get bs (entry_source e)")
    case Inherited
    with Cons.prems show ?thesis by (simp add: Let_def)
  next
    case Undefined
    then have none: "map_of bs (entry_source e) = None"
      by (auto simp: obj_get_def split: option.splits if_splits)
    from Cons.prems Undefined
    have run: "index_tables es (obj_set bs (entry_source e) [e]) ?bp = Inr (bs', bp')"
      by (simp add: Let_def)
    from Cons.IH [OF run] none show ?thesis
      by (auto simp: map_of_obj_set split: option.splits list.splits)
  next
    case (Own l)
    then have some: "map_of bs (entry_source e) = Some l"
      by (auto simp: obj_get_def split: option.splits if_splits)
    from Cons.prems Own
    have run: "index_tables es (obj_set bs (entry_source e) (l @ [e])) ?bp = Inr (bs', bp')"
      by (simp add: Let_def)
    from Cons.IH [OF run] some show ?thesis
      by (auto simp: map_of_obj_set split: option.splits list.splits)
  qed
qed


text \<open>What \<^verbatim>\<open>collectStats\<close> guarantees about its table.\<close>

definition stats_inv :: "path \<Rightarrow> path set \<Rightarrow> skill list jsobj \<Rightarrow> bool" where
  "stats_inv S D obj =
     (\<forall>entry \<in> set obj. fst entry \<notin> set prototype_keys
        \<and> distinct (map skill_id (snd entry))
        \<and> (\<forall>sk \<in> set (snd entry). marker_path S (64 # fst entry) (skill_id sk) \<in> D))"

lemma set_obj_set: "set (obj_set obj k v) \<subseteq> insert (k, v) (set obj)"
  by (induction obj) auto

lemma startsWith_at: "startsWith d (ascii ''@'') \<Longrightarrow> d = 64 # drop 1 d"
  by (cases d) (auto simp: startsWith_def ascii_def)

lemma collect_files_stats_inv:
  assumes "\<forall>p \<in> set ps. \<exists>d e. p = marker_path S d e \<and> startsWith d (ascii ''@'')"
    and "distinct ps" and "set ps \<inter> D = {}"
    and "stats_inv S D obj"
    and "collect_files fs S ps obj = Inr stats"
  shows "stats_inv S (D \<union> set ps) stats"
  using assms
proof (induction ps arbitrary: obj D)
  case Nil
  then show ?case by simp
next
  case (Cons p ps)
  from Cons.prems(1) obtain d e where p: "p = marker_path S d e" and at: "startsWith d (ascii ''@'')"
    by auto
  have d: "d = 64 # drop 1 d" using at by (rule startsWith_at)
  note step = collect_files_step [OF at, of fs S e ps obj]
  have run0: "collect_files fs S (marker_path S d e # ps) obj = Inr stats"
    using Cons.prems(5) p by simp
  obtain meta where meta: "parseSkillMetadata fs (marker_path S d e) = Inr meta"
    using run0 unfolding step by (cases "parseSkillMetadata fs (marker_path S d e)") simp_all
  let ?entry = "\<lparr>skill_id = e, skill_path = marker_path S d e, skill_name = meta_name meta,
                  skill_description = meta_description meta\<rparr>"
  have rest: "\<forall>q \<in> set ps. \<exists>d e. q = marker_path S d e \<and> startsWith d (ascii ''@'')"
    using Cons.prems(1) by simp
  have dps: "distinct ps" using Cons.prems(2) by simp
  have disj: "set ps \<inter> (D \<union> {p}) = {}" using Cons.prems(2,3) by auto
  have pD: "p \<notin> D" using Cons.prems(3) by auto
  have mono: "stats_inv S (D \<union> {p}) obj"
    using Cons.prems(4) by (auto simp: stats_inv_def)
  have marker: "marker_path S (64 # drop 1 d) e = p"
    using d p by simp
  have D': "D \<union> {p} \<union> set ps = D \<union> set (p # ps)" by auto
  show ?case
  proof (cases "obj_get obj (drop 1 d)")
    case Inherited
    then show ?thesis
      using run0 unfolding step meta by simp
  next
    case Undefined
    then have np: "drop 1 d \<notin> set prototype_keys"
      by (auto simp: obj_get_def split: option.splits if_splits)
    let ?obj = "obj_set obj (drop 1 d) [?entry]"
    have run: "collect_files fs S ps ?obj = Inr stats"
      using run0 unfolding step meta Undefined by simp
    have "stats_inv S (D \<union> {p}) ?obj"
      unfolding stats_inv_def
    proof
      fix entry assume "entry \<in> set ?obj"
      then have "entry = (drop 1 d, [?entry]) \<or> entry \<in> set obj"
        using set_obj_set by fastforce
      then show "fst entry \<notin> set prototype_keys \<and> distinct (map skill_id (snd entry))
          \<and> (\<forall>sk \<in> set (snd entry). marker_path S (64 # fst entry) (skill_id sk) \<in> D \<union> {p})"
        using np marker mono by (auto simp: stats_inv_def)
    qed
    from Cons.IH [OF rest dps disj this run] show ?thesis
      unfolding D' .
  next
    case (Own skills)
    then have some: "map_of obj (drop 1 d) = Some skills"
      by (auto simp: obj_get_def split: option.splits if_splits)
    then have mem: "(drop 1 d, skills) \<in> set obj" by (rule map_of_SomeD)
    let ?obj = "obj_set obj (drop 1 d) (skills @ [?entry])"
    have run: "collect_files fs S ps ?obj = Inr stats"
      using run0 unfolding step meta Own by simp
    have old: "drop 1 d \<notin> set prototype_keys" "distinct (map skill_id skills)"
      "\<forall>sk \<in> set skills. marker_path S (64 # drop 1 d) (skill_id sk) \<in> D"
      using Cons.prems(4) mem by (auto simp: stats_inv_def)
    have fresh: "e \<notin> skill_id ` set skills"
    proof
      assume "e \<in> skill_id ` set skills"
      then obtain sk where "sk \<in> set skills" "skill_id sk = e" by auto
      with old(3) have "marker_path S (64 # drop 1 d) e \<in> D" by auto
      with marker pD show False by simp
    qed
    have "stats_inv S (D \<union> {p}) ?obj"
      unfolding stats_inv_def
    proof
      fix entry assume "entry \<in> set ?obj"
      then have "entry = (drop 1 d, skills @ [?entry]) \<or> entry \<in> set obj"
        using set_obj_set by fastforce
      then show "fst entry \<notin> set prototype_keys \<and> distinct (map skill_id (snd entry))
          \<and> (\<forall>sk \<in> set (snd entry). marker_path S (64 # fst entry) (skill_id sk) \<in> D \<union> {p})"
        using old fresh marker mono by (auto simp: stats_inv_def)
    qed
    from Cons.IH [OF rest dps disj this run] show ?thesis
      unfolding D' .
  qed
qed

lemma collectStats_table:
  assumes wf: "wf_node fs" and run: "collectStats ROOT_DIR fs = Inr (statsBySource, broken)"
  shows "distinct (map fst statsBySource)
    \<and> stats_inv (SKILLS_DIR ROOT_DIR)
         ((\<lambda>(d, e). marker_path (SKILLS_DIR ROOT_DIR) d e) ` marker_dirs fs (SKILLS_DIR ROOT_DIR))
         statsBySource"
proof -
  let ?S = "SKILLS_DIR ROOT_DIR"
  let ?M = "marker_dirs fs ?S"
  from run obtain results where scan: "scanSkillDirs fs ?S = Inr (results, broken)"
    and coll: "collect_files fs ?S results [] = Inr statsBySource"
    by (auto simp: collectStats_def split: sum.splits)
  from scan_results_markers [OF wf scan]
  have dr: "distinct results" and sr: "set results = (\<lambda>(d, e). marker_path ?S d e) ` ?M"
    by auto
  have form: "\<forall>p \<in> set results. \<exists>d e. p = marker_path ?S d e \<and> startsWith d (ascii ''@'')"
    unfolding sr by (auto simp: marker_dirs_def candidate_def)
  from collect_files_inv [OF form coll] have ds: "distinct (map fst statsBySource)" by simp
  have "stats_inv ?S ({} \<union> set results) statsBySource"
    by (rule collect_files_stats_inv [OF form dr _ _ coll]) (simp_all add: stats_inv_def)
  with ds sr show ?thesis by simp
qed


definition parsed_bySource :: "index option \<Rightarrow> index_entry list jsobj" where
  "parsed_bySource idx = (case idx of None \<Rightarrow> [] | Some i \<Rightarrow> index_bySource i)"

definition parsed_byPath :: "index option \<Rightarrow> index_entry jsobj" where
  "parsed_byPath idx = (case idx of None \<Rightarrow> [] | Some i \<Rightarrow> index_byPath i)"

lemma verifyTranslations_result:
  assumes "verifyTranslations inherited_has ROOT_DIR fs statsBySource broken reg = Inr res"
  shows "\<exists>idx.
      parseTranslations fs (reg @ [ascii ''i18n'', ascii ''zh-CN.yaml'']) = Inr (result_translations res)
    \<and> parseIndex fs (reg @ [ascii ''index.yaml'']) = Inr idx
    \<and> result_indexEntries res = parsed_entries idx
    \<and> result_missing res =
        check_directories inherited_has (result_translations res) (parsed_byPath idx) statsBySource
        @ check_index_entries fs (SKILLS_DIR ROOT_DIR) (parsed_entries idx)
        @ broken_items broken
    \<and> check_translations (parsed_bySource idx) (obj_entries (result_translations res))
        = Inr (result_orphaned res)"
  using assms
  by (auto simp: verifyTranslations_def Let_def parsed_entries_def parsed_bySource_def
      parsed_byPath_def split: sum.splits)

lemma parseIndex_tables:
  assumes "parseIndex fs p = Inr idx"
  shows "index_tables (parsed_entries idx) [] [] = Inr (parsed_bySource idx, parsed_byPath idx)"
  using assms
  by (auto simp: parseIndex_def Let_def parsed_entries_def parsed_bySource_def parsed_byPath_def
      split: if_splits sum.splits)

lemma expected_path_not_proto: "expected_path s i \<noteq> ascii ''__proto__''"
  by (simp add: expected_path_def ascii_def)

lemma parsed_byPath_lookup:
  assumes "parseIndex fs p = Inr idx"
  shows "map_of (parsed_byPath idx) (expected_path s i)
           = index_record_at (parsed_entries idx) (expected_path s i)"
  using index_tables_byPath [OF parseIndex_tables [OF assms] expected_path_not_proto, of s i]
  by (simp add: index_record_at_def split: list.splits)

lemma index_record_at_None:
  "(index_record_at es p = None) = (p \<notin> entry_path ` set es)"
proof -
  have "(index_record_at es p = None) = (filter (\<lambda>e. entry_path e = p) es = [])"
    by (simp add: index_record_at_def split: list.splits)
  also have "\<dots> = (p \<notin> entry_path ` set es)"
    by (auto simp: filter_empty_conv)
  finally show ?thesis .
qed

lemma expected_path_inj: "(expected_path k i = expected_path k j) = (i = j)"
  by (simp add: expected_path_def)

lemma type_names_distinct:
  "ascii ''index'' \<noteq> ascii ''translation''" "ascii ''translation'' \<noteq> ascii ''index''"
  "ascii ''skillDir'' \<noteq> ascii ''index''" "ascii ''index'' \<noteq> ascii ''skillDir''"
  "ascii ''missingSkillMd'' \<noteq> ascii ''index''" "ascii ''index'' \<noteq> ascii ''missingSkillMd''"
  "ascii ''skillDir'' \<noteq> ascii ''translation''" "ascii ''translation'' \<noteq> ascii ''skillDir''"
  "ascii ''missingSkillMd'' \<noteq> ascii ''translation''"
  "ascii ''translation'' \<noteq> ascii ''missingSkillMd''"
  by (simp_all add: ascii_def)

lemma check_skills_count_index:
  "count_list (check_skills inh tr bp k skills)
     \<lparr>missing_source = k, missing_id = i, missing_type = ascii ''index'',
      missing_path = Some (expected_path k i)\<rparr>
   = (if map_of bp (expected_path k i) = None then count_list (map skill_id skills) i else 0)"
proof (induction skills)
  case Nil
  then show ?case by simp
next
  case (Cons sk skills)
  show ?case
  proof (cases "skill_id sk = i")
    case True
    then show ?thesis
      using Cons by (auto simp: Let_def type_names_distinct split: option.splits)
  next
    case False
    then show ?thesis
      using Cons by (auto simp: Let_def expected_path_inj split: option.splits)
  qed
qed

lemma check_skills_member:
  assumes "m \<in> set (check_skills inh tr bp k skills)"
  shows "missing_source m = k \<and>
     (\<exists>sk \<in> set skills. missing_path m = Some (expected_path k (skill_id sk))
        \<and> (case map_of bp (expected_path k (skill_id sk)) of
              None \<Rightarrow> missing_type m = ascii ''index'' \<and> missing_id m = skill_id sk
            | Some e \<Rightarrow> missing_type m = ascii ''translation'' \<and> missing_id m = entry_id e
                \<and> \<not> hasTranslation inh tr k (entry_id e)))"
  using assms
proof (induction skills)
  case Nil
  then show ?case by simp
next
  case (Cons sk skills)
  show ?case
  proof (cases "m \<in> set (check_skills inh tr bp k skills)")
    case True
    with Cons.IH show ?thesis by auto
  next
    case False
    with Cons.prems show ?thesis
      by (auto simp: Let_def split: option.splits if_splits)
  qed
qed

lemma check_index_entries_type:
  "m \<in> set (check_index_entries fs S es) \<Longrightarrow> missing_type m = ascii ''skillDir''"
  by (induction es) (auto simp: Let_def split: if_splits)

lemma broken_items_type:
  "m \<in> set (broken_items broken) \<Longrightarrow> missing_type m = ascii ''missingSkillMd''"
  by (auto simp: broken_items_def)

lemma count_concat_single:
  assumes "distinct (map fst es)" and "(k, v) \<in> set es"
    and "\<forall>e \<in> set es. fst e \<noteq> k \<longrightarrow> r \<notin> set (f e)"
  shows "count_list (concat (map f es)) r = count_list (f (k, v)) r"
  using assms
proof (induction es)
  case Nil
  then show ?case by simp
next
  case (Cons e es)
  show ?case
  proof (cases "e = (k, v)")
    case True
    then have "\<forall>x \<in> set es. fst x \<noteq> k" using Cons.prems(1) by (auto simp: image_iff)
    with Cons.prems(3) have "\<forall>x \<in> set es. r \<notin> set (f x)" by simp
    then have "r \<notin> set (concat (map f es))" by simp
    then have "count_list (concat (map f es)) r = 0" using count_list_0_iff by metis
    with True show ?thesis by simp
  next
    case False
    with Cons.prems have in_es: "(k, v) \<in> set es" by simp
    with Cons.prems(1) have "fst e \<noteq> k" by (auto simp: image_iff)
    with Cons.prems(3) have "r \<notin> set (f e)" by simp
    then have "count_list (f e) r = 0" using count_list_0_iff by metis
    moreover have "count_list (concat (map f es)) r = count_list (f (k, v)) r"
      using Cons.IH Cons.prems in_es by simp
    ultimately show ?thesis by simp
  qed
qed

lemma count_list_distinct:
  "distinct xs \<Longrightarrow> x \<in> set xs \<Longrightarrow> count_list xs x = 1"
  by (induction xs) (auto simp: count_list_0_iff)


lemma check_directories_count:
  assumes d: "distinct (map fst stats)" and mem: "(k, skills) \<in> set stats"
    and src: "missing_source r = k"
  shows "count_list (check_directories inh tr bp stats) r = count_list (check_skills inh tr bp k skills) r"
proof -
  let ?f = "\<lambda>e. check_skills inh tr bp (fst e) (snd e)"
  have d': "distinct (map fst (obj_entries stats))" using d by (rule obj_entries_distinct)
  have mem': "(k, skills) \<in> set (obj_entries stats)" using mem by simp
  have other: "\<forall>e \<in> set (obj_entries stats). fst e \<noteq> k \<longrightarrow> r \<notin> set (?f e)"
  proof (intro ballI impI notI)
    fix e assume "fst e \<noteq> k" and "r \<in> set (check_skills inh tr bp (fst e) (snd e))"
    from check_skills_member [OF this(2)] have "missing_source r = fst e" by (rule conjunct1)
    with src \<open>fst e \<noteq> k\<close> show False by simp
  qed
  from count_concat_single [OF d' mem' other]
  show ?thesis by (simp add: check_directories_def)
qed

lemma check_directories_member:
  assumes "m \<in> set (check_directories inh tr bp stats)"
  shows "\<exists>entry \<in> set stats. m \<in> set (check_skills inh tr bp (fst entry) (snd entry))"
  using assms by (auto simp: check_directories_def)

text \<open>A repository with the skills \<^verbatim>\<open>@foo/bar\<close> and \<^verbatim>\<open>@foo/qux\<close> beside a registry
  whose index has one record, of id \<^verbatim>\<open>bar\<close>, source \<^verbatim>\<open>other\<close> and path \<^verbatim>\<open>@foo/bar\<close>, and
  whose translations are \<^verbatim>\<open>bar\<close> under \<^verbatim>\<open>other\<close> and \<^verbatim>\<open>baz\<close> under \<^verbatim>\<open>foo\<close>.\<close>

definition registry_example :: node where
  "registry_example =
     Dir [(ascii ''repo'',
            Dir [(ascii ''skills'',
              Dir [(ascii ''@foo'',
                Dir [(ascii ''bar'', Dir [(ascii ''SKILL.md'', File (ascii ''# bar''))]),
                     (ascii ''qux'', Dir [(ascii ''SKILL.md'', File (ascii ''# qux''))])])])]),
          (ascii ''skillwisp-cli'',
            Dir [(ascii ''registry'',
              Dir [(ascii ''index.yaml'',
                     File (ascii ''- id: bar'' @ [10] @ ascii ''  source: other'' @ [10]
                           @ ascii ''  path: '' @ [39] @ ascii ''@foo/bar'' @ [39] @ [10])),
                   (ascii ''i18n'',
                     Dir [(ascii ''zh-CN.yaml'',
                       File (ascii ''  other:'' @ [10] @ ascii ''    bar:'' @ [10]
                             @ ascii ''  foo:'' @ [10] @ ascii ''    baz:'' @ [10]))])])])]"

definition registry_stats :: "skill list jsobj" where
  "registry_stats =
     [(ascii ''foo'',
       [\<lparr>skill_id = ascii ''bar'',
         skill_path = map ascii [''repo'', ''skills'', ''@foo'', ''bar'', ''SKILL.md''],
         skill_name = ascii ''bar'', skill_description = []\<rparr>,
        \<lparr>skill_id = ascii ''qux'',
         skill_path = map ascii [''repo'', ''skills'', ''@foo'', ''qux'', ''SKILL.md''],
         skill_name = ascii ''qux'', skill_description = []\<rparr>])]"

definition registry_result :: verify_result where
  "registry_result =
     \<lparr>result_missing =
        [\<lparr>missing_source = ascii ''foo'', missing_id = ascii ''bar'',
          missing_type = ascii ''translation'', missing_path = Some (ascii ''@foo/bar'')\<rparr>,
         \<lparr>missing_source = ascii ''foo'', missing_id = ascii ''qux'',
          missing_type = ascii ''index'', missing_path = Some (ascii ''@foo/qux'')\<rparr>],
      result_orphaned =
        [\<lparr>orphaned_source = ascii ''foo'', orphaned_id = ascii ''baz'',
          orphaned_type = ascii ''translation''\<rparr>],
      result_translations =
        [(ascii ''other'', [(ascii ''bar'', ())]), (ascii ''foo'', [(ascii ''baz'', ())])],
      result_indexEntries =
        [\<lparr>entry_id = ascii ''bar'', entry_source = ascii ''other'',
          entry_path = ascii ''@foo/bar''\<rparr>]\<rparr>"

lemmas registry_eval = parseTranslations_def parseIndex_def rx_translation_source_def
  rx_translation_skill_def is_source_char_def is_skill_char_def unquote_def rx_field_value_def
  rx_index_id_def rx_index_source_def rx_index_path_def complete_entry_def
  verifyTranslations_def expected_path_def hasTranslation_def check_directories_def
  broken_items_def obj_entries_def obj_keys_def is_array_index_def obj_get_def
  prototype_keys_def SKILLS_DIR_def

lemma registry_collect:
  "collectStats [ascii ''repo''] registry_example = Inr (registry_stats, [])"
  by (simp add: registry_example_def registry_stats_def scan_eval meta_eval str_eval rx_eval
      fs_eval Let_def)

lemma registry_tr: "parseTranslations registry_example (map ascii [''skillwisp-cli'', ''registry'', ''i18n'', ''zh-CN.yaml''])
  = Inr [(ascii ''other'', [(ascii ''bar'', ())]), (ascii ''foo'', [(ascii ''baz'', ())])]"
  by (simp add: registry_example_def registry_eval str_eval rx_eval fs_eval Let_def)

lemma registry_idx: "\<exists>bs bp. parseIndex registry_example (map ascii [''skillwisp-cli'', ''registry'', ''index.yaml''])
  = Inr (Some \<lparr>index_entries = [\<lparr>entry_id = ascii ''bar'', entry_source = ascii ''other'',
          entry_path = ascii ''@foo/bar''\<rparr>], index_bySource = bs, index_byPath = bp\<rparr>)"
  by (simp add: registry_example_def registry_eval str_eval rx_eval fs_eval Let_def obj_get_def prototype_keys_def)

lemma registry_verify:
  "verifyTranslations (\<lambda>s k. False) [ascii ''repo''] registry_example registry_stats []
     [ascii ''skillwisp-cli'', ascii ''registry''] = Inr registry_result"
  by (simp add: registry_example_def registry_stats_def registry_result_def registry_eval
      str_eval rx_eval fs_eval Let_def)

lemma registry_wf: "wf_node registry_example"
  by (simp add: registry_example_def valid_name_def ascii_def)

text \<open>
  Pass 1 in a result of \<^verbatim>\<open>verifyTranslations\<close>. For a scanned skill with source \<open>s\<close> and
  id \<open>i\<close> whose path \<^verbatim>\<open>@s/i\<close> is the path of no parsed index record, the list
  \<^verbatim>\<open>missing\<close> holds the record of type \<^verbatim>\<open>index\<close> with source \<open>s\<close>, id \<open>i\<close> and path
  \<^verbatim>\<open>@s/i\<close> exactly once, and holds no record of type \<^verbatim>\<open>translation\<close> for that path.
\<close>

lemma missing_index_counted:
  assumes wf: "wf_node fs"
    and coll: "collectStats ROOT_DIR fs = Inr (statsBySource, broken)"
    and run: "verifyTranslations inherited_has ROOT_DIR fs statsBySource broken reg = Inr res"
    and entry: "(source, skills) \<in> set statsBySource" "skill \<in> set skills"
    and absent: "expected_path source (skill_id skill) \<notin> entry_path ` set (result_indexEntries res)"
  shows "count_list (result_missing res)
           \<lparr>missing_source = source, missing_id = skill_id skill, missing_type = ascii ''index'',
            missing_path = Some (expected_path source (skill_id skill))\<rparr> = 1
    \<and> (\<forall>m \<in> set (result_missing res).
          missing_type m = ascii ''translation''
            \<longrightarrow> missing_path m \<noteq> Some (expected_path source (skill_id skill)))"
proof -
  let ?P = "expected_path source (skill_id skill)"
  let ?r = "\<lparr>missing_source = source, missing_id = skill_id skill, missing_type = ascii ''index'',
            missing_path = Some ?P\<rparr>"
  from verifyTranslations_result [OF run] obtain idx where
    pidx: "parseIndex fs (reg @ [ascii ''index.yaml'']) = Inr idx"
    and ents: "result_indexEntries res = parsed_entries idx"
    and miss: "result_missing res =
        check_directories inherited_has (result_translations res) (parsed_byPath idx) statsBySource
        @ check_index_entries fs (SKILLS_DIR ROOT_DIR) (parsed_entries idx)
        @ broken_items broken"
    by blast
  let ?tr = "result_translations res"
  let ?bp = "parsed_byPath idx"
  have none: "map_of ?bp ?P = None"
    using parsed_byPath_lookup [OF pidx, of source "skill_id skill"] absent
    by (simp add: ents index_record_at_None)
  from collectStats_table [OF wf coll]
  have ds: "distinct (map fst statsBySource)"
    and inv: "stats_inv (SKILLS_DIR ROOT_DIR)
         ((\<lambda>(d, e). marker_path (SKILLS_DIR ROOT_DIR) d e) ` marker_dirs fs (SKILLS_DIR ROOT_DIR))
         statsBySource"
    by simp_all
  have dids: "distinct (map skill_id skills)"
    using inv entry(1) by (auto simp: stats_inv_def)
  have c1: "count_list (check_directories inherited_has ?tr ?bp statsBySource) ?r = 1"
  proof -
    have "count_list (check_directories inherited_has ?tr ?bp statsBySource) ?r
        = count_list (check_skills inherited_has ?tr ?bp source skills) ?r"
      by (rule check_directories_count [OF ds entry(1)]) simp
    also have "\<dots> = count_list (map skill_id skills) (skill_id skill)"
      using none by (simp add: check_skills_count_index)
    also have "\<dots> = 1"
      using dids entry(2) by (simp add: count_list_distinct)
    finally show ?thesis .
  qed
  have c2: "count_list (check_index_entries fs (SKILLS_DIR ROOT_DIR) (parsed_entries idx)) ?r = 0"
    using check_index_entries_type [of ?r] type_names_distinct by (auto simp: count_list_0_iff)
  have c3: "count_list (broken_items broken) ?r = 0"
    using broken_items_type [of ?r] type_names_distinct by (auto simp: count_list_0_iff)
  have part1: "count_list (result_missing res) ?r = 1"
    unfolding miss using c1 c2 c3 by simp
  have part2: "\<forall>m \<in> set (result_missing res).
          missing_type m = ascii ''translation'' \<longrightarrow> missing_path m \<noteq> Some ?P"
  proof (intro ballI impI)
    fix m assume m: "m \<in> set (result_missing res)" and ty: "missing_type m = ascii ''translation''"
    have "m \<in> set (check_directories inherited_has ?tr ?bp statsBySource)"
      using m ty check_index_entries_type [of m] broken_items_type [of m] type_names_distinct
      unfolding miss by auto
    then obtain k sks where "m \<in> set (check_skills inherited_has ?tr ?bp k sks)"
      using check_directories_member by blast
    from check_skills_member [OF this]
    have "\<exists>sk \<in> set sks. missing_path m = Some (expected_path k (skill_id sk))
        \<and> (case map_of ?bp (expected_path k (skill_id sk)) of
              None \<Rightarrow> missing_type m = ascii ''index'' \<and> missing_id m = skill_id sk
            | Some e \<Rightarrow> missing_type m = ascii ''translation'' \<and> missing_id m = entry_id e
                \<and> \<not> hasTranslation inherited_has ?tr k (entry_id e))"
      by (rule conjunct2)
    then obtain sk where "sk \<in> set sks"
      and both: "missing_path m = Some (expected_path k (skill_id sk))
        \<and> (case map_of ?bp (expected_path k (skill_id sk)) of
              None \<Rightarrow> missing_type m = ascii ''index'' \<and> missing_id m = skill_id sk
            | Some e \<Rightarrow> missing_type m = ascii ''translation'' \<and> missing_id m = entry_id e
                \<and> \<not> hasTranslation inherited_has ?tr k (entry_id e))" ..
    from both have p: "missing_path m = Some (expected_path k (skill_id sk))"
      by (rule conjunct1)
    from both have c: "case map_of ?bp (expected_path k (skill_id sk)) of
              None \<Rightarrow> missing_type m = ascii ''index'' \<and> missing_id m = skill_id sk
            | Some e \<Rightarrow> missing_type m = ascii ''translation'' \<and> missing_id m = entry_id e
                \<and> \<not> hasTranslation inherited_has ?tr k (entry_id e)"
      by (rule conjunct2)
    show "missing_path m \<noteq> Some ?P"
    proof
      assume "missing_path m = Some ?P"
      with p have "expected_path k (skill_id sk) = ?P" by simp
      with c none ty type_names_distinct show False by simp
    qed
  qed
  from part1 part2 show ?thesis by (rule conjI)
qed

lemma valid_name_of_child:
  assumes wf: "wf_node fs" and dir: "is_directory fs (p @ [x])"
  shows "valid_name x"
proof -
  from dir have "is_directory fs p" by (rule is_directory_parent)
  then obtain es where es: "lookup fs p = Some (Dir es)"
    by (auto simp: is_directory_def split: option.splits node.splits)
  have d: "distinct (map fst es)" using wf es by (rule wf_dir_distinct)
  from dir have "\<exists>e \<in> set es. fst e = x \<and> is_dir (snd e)"
    unfolding is_directory_child [OF es d] .
  moreover have "wf_node (Dir es)" using wf es by (rule wf_lookup)
  ultimately show ?thesis by (auto simp: wf_entries_iff)
qed

lemma expected_path_inj2:
  assumes "47 \<notin> set k" "47 \<notin> set k'" "expected_path k i = expected_path k' i'"
  shows "k = k' \<and> i = i'"
proof -
  from assms(3) have eq: "k @ 47 # i = k' @ 47 # i'" by (simp add: expected_path_def)
  have "takeWhile (\<lambda>c. c \<noteq> 47) (k @ 47 # i) = k"
    using assms(1) by (auto simp: takeWhile_tail)
  moreover have "takeWhile (\<lambda>c. c \<noteq> 47) (k' @ 47 # i') = k'"
    using assms(2) by (auto simp: takeWhile_tail)
  ultimately have "k = k'" using eq by simp
  with eq show ?thesis by simp
qed

lemma stats_key_no_slash:
  assumes wf: "wf_node fs"
    and inv: "stats_inv S ((\<lambda>(d, e). marker_path S d e) ` marker_dirs fs S) stats"
    and mem: "(k, sks) \<in> set stats" "sk \<in> set sks"
  shows "47 \<notin> set k \<and> k \<notin> set prototype_keys"
proof -
  from inv mem have np: "k \<notin> set prototype_keys"
    and "marker_path S (64 # k) (skill_id sk) \<in> (\<lambda>(d, e). marker_path S d e) ` marker_dirs fs S"
    by (auto simp: stats_inv_def)
  then obtain d e where "(d, e) \<in> marker_dirs fs S" "marker_path S (64 # k) (skill_id sk) = marker_path S d e"
    by auto
  then have "(64 # k, skill_id sk) \<in> marker_dirs fs S"
    by (simp add: marker_path_def)
  then have "is_directory fs (S @ [64 # k])"
    by (simp add: marker_dirs_def candidate_def)
  with wf have "valid_name (64 # k)" by (rule valid_name_of_child)
  with np show ?thesis by (simp add: valid_name_def)
qed

lemma hasTranslation_own:
  assumes "source \<notin> set prototype_keys" "entryId \<notin> set prototype_keys"
  shows "hasTranslation inh tr source entryId =
     (\<exists>skillIds. map_of tr source = Some skillIds \<and> entryId \<in> fst ` set skillIds)"
proof (cases "map_of tr source")
  case None
  with assms show ?thesis by (simp add: hasTranslation_def obj_get_def)
next
  case (Some ids)
  show ?thesis
  proof (cases "map_of ids entryId")
    case None
    then have "entryId \<notin> fst ` set ids" by (simp add: map_of_eq_None_iff)
    with None Some assms show ?thesis by (simp add: hasTranslation_def obj_get_def)
  next
    case (Some u)
    then have "entryId \<in> fst ` set ids" by (metis domI dom_map_of_conv_image_fst)
    with Some \<open>map_of tr source = Some ids\<close> show ?thesis
      by (simp add: hasTranslation_def obj_get_def)
  qed
qed

lemma check_skills_translation_mem:
  assumes "skill \<in> set skills"
    and "map_of bp (expected_path k (skill_id skill)) = Some e"
    and "\<not> hasTranslation inh tr k (entry_id e)"
  shows "\<lparr>missing_source = k, missing_id = entry_id e, missing_type = ascii ''translation'',
          missing_path = Some (expected_path k (skill_id skill))\<rparr>
         \<in> set (check_skills inh tr bp k skills)"
  using assms
proof (induction skills)
  case Nil
  then show ?case by simp
next
  case (Cons sk skills)
  show ?case
  proof (cases "sk = skill")
    case True
    with Cons.prems show ?thesis by (simp add: Let_def)
  next
    case False
    with Cons.prems have "skill \<in> set skills" by simp
    from Cons.IH [OF this Cons.prems(2,3)] show ?thesis
      by (simp add: Let_def split: option.splits)
  qed
qed

text \<open>
  The lookup of pass 1 in a result of \<^verbatim>\<open>verifyTranslations\<close>. For a scanned skill with
  source \<open>s\<close> and id \<open>i\<close> whose path \<^verbatim>\<open>@s/i\<close> finds an index record (the last parsed
  record with that path) whose id does not name an inherited property of objects, a
  record of type \<^verbatim>\<open>translation\<close> is produced for that path if and only if the translation
  table has no entry for that id under \<open>s\<close>: the source key is the source of the scanned
  directory, the id key is the id of the index record.
\<close>

lemma translation_lookup_by_scanned_source:
  assumes wf: "wf_node fs"
    and coll: "collectStats ROOT_DIR fs = Inr (statsBySource, broken)"
    and run: "verifyTranslations inherited_has ROOT_DIR fs statsBySource broken reg = Inr res"
    and entry: "(source, skills) \<in> set statsBySource" "skill \<in> set skills"
    and found: "index_record_at (result_indexEntries res) (expected_path source (skill_id skill))
                  = Some indexEntry"
    and own: "entry_id indexEntry \<notin> set prototype_keys"
  shows "(\<exists>m \<in> set (result_missing res).
            missing_type m = ascii ''translation''
            \<and> missing_path m = Some (expected_path source (skill_id skill)))
       = (\<not> (\<exists>skillIds. map_of (result_translations res) source = Some skillIds
                \<and> entry_id indexEntry \<in> fst ` set skillIds))"
proof -
  let ?P = "expected_path source (skill_id skill)"
  let ?S = "SKILLS_DIR ROOT_DIR"
  from verifyTranslations_result [OF run] obtain idx where
    pidx: "parseIndex fs (reg @ [ascii ''index.yaml'']) = Inr idx"
    and ents: "result_indexEntries res = parsed_entries idx"
    and miss: "result_missing res =
        check_directories inherited_has (result_translations res) (parsed_byPath idx) statsBySource
        @ check_index_entries fs ?S (parsed_entries idx)
        @ broken_items broken"
    by blast
  let ?tr = "result_translations res"
  let ?bp = "parsed_byPath idx"
  have some: "map_of ?bp ?P = Some indexEntry"
    using parsed_byPath_lookup [OF pidx, of source "skill_id skill"] found by (simp add: ents)
  from collectStats_table [OF wf coll]
  have inv: "stats_inv ?S ((\<lambda>(d, e). marker_path ?S d e) ` marker_dirs fs ?S) statsBySource"
    by simp
  from stats_key_no_slash [OF wf inv entry]
  have ns: "47 \<notin> set source" and np: "source \<notin> set prototype_keys" by simp_all
  have has: "hasTranslation inherited_has ?tr source (entry_id indexEntry) =
     (\<exists>skillIds. map_of ?tr source = Some skillIds \<and> entry_id indexEntry \<in> fst ` set skillIds)"
    using np own by (rule hasTranslation_own)
  show ?thesis
  proof (cases "hasTranslation inherited_has ?tr source (entry_id indexEntry)")
    case False
    let ?r = "\<lparr>missing_source = source, missing_id = entry_id indexEntry,
               missing_type = ascii ''translation'', missing_path = Some ?P\<rparr>"
    have "?r \<in> set (check_skills inherited_has ?tr ?bp source skills)"
      using entry(2) some False by (rule check_skills_translation_mem)
    then have "?r \<in> set (check_directories inherited_has ?tr ?bp statsBySource)"
      using entry(1) by (force simp: check_directories_def)
    then have "?r \<in> set (result_missing res)" unfolding miss by simp
    then have "\<exists>m \<in> set (result_missing res).
        missing_type m = ascii ''translation'' \<and> missing_path m = Some ?P"
      by (rule rev_bexI) simp
    with False has show ?thesis by simp
  next
    case True
    have "\<not> (\<exists>m \<in> set (result_missing res).
        missing_type m = ascii ''translation'' \<and> missing_path m = Some ?P)"
    proof
      assume "\<exists>m \<in> set (result_missing res).
        missing_type m = ascii ''translation'' \<and> missing_path m = Some ?P"
      then obtain m where m: "m \<in> set (result_missing res)"
        and ty: "missing_type m = ascii ''translation''" and pm: "missing_path m = Some ?P"
        by blast
      have "m \<in> set (check_directories inherited_has ?tr ?bp statsBySource)"
        using m ty check_index_entries_type [of m] broken_items_type [of m] type_names_distinct
        unfolding miss by auto
      then obtain k sks where ks: "(k, sks) \<in> set statsBySource"
        and mk: "m \<in> set (check_skills inherited_has ?tr ?bp k sks)"
        using check_directories_member by force
      from check_skills_member [OF mk]
      have "\<exists>sk \<in> set sks. missing_path m = Some (expected_path k (skill_id sk))
        \<and> (case map_of ?bp (expected_path k (skill_id sk)) of
              None \<Rightarrow> missing_type m = ascii ''index'' \<and> missing_id m = skill_id sk
            | Some e \<Rightarrow> missing_type m = ascii ''translation'' \<and> missing_id m = entry_id e
                \<and> \<not> hasTranslation inherited_has ?tr k (entry_id e))"
        by (rule conjunct2)
      then obtain sk where sk: "sk \<in> set sks"
        and both: "missing_path m = Some (expected_path k (skill_id sk))
        \<and> (case map_of ?bp (expected_path k (skill_id sk)) of
              None \<Rightarrow> missing_type m = ascii ''index'' \<and> missing_id m = skill_id sk
            | Some e \<Rightarrow> missing_type m = ascii ''translation'' \<and> missing_id m = entry_id e
                \<and> \<not> hasTranslation inherited_has ?tr k (entry_id e))" ..
      from both pm have eq: "expected_path k (skill_id sk) = ?P" by simp
      from stats_key_no_slash [OF wf inv ks sk] have "47 \<notin> set k" by simp
      from expected_path_inj2 [OF this ns eq] have "k = source" by simp
      with both eq some have "\<not> hasTranslation inherited_has ?tr source (entry_id indexEntry)"
        by simp
      with True show False by simp
    qed
    with True has show ?thesis by simp
  qed
qed

text \<open>The translation table has each source once and each id once under its source.\<close>

definition table_distinct :: "translation_table \<Rightarrow> bool" where
  "table_distinct tr = (distinct (map fst tr) \<and> (\<forall>e \<in> set tr. distinct (map fst (snd e))))"

lemma table_distinct_set:
  assumes "table_distinct tr" "distinct (map fst v)"
  shows "table_distinct (obj_set tr k v)"
proof -
  have "\<forall>e \<in> set (obj_set tr k v). distinct (map fst (snd e))"
  proof
    fix e assume "e \<in> set (obj_set tr k v)"
    then have "e = (k, v) \<or> e \<in> set tr" using set_obj_set by fastforce
    with assms show "distinct (map fst (snd e))" by (auto simp: table_distinct_def)
  qed
  with assms(1) show ?thesis by (simp add: table_distinct_def obj_set_distinct)
qed

lemma translation_lines_distinct:
  assumes "translation_lines lines tr cur = Inr tr'" "table_distinct tr"
  shows "table_distinct tr'"
  using assms
proof (induction lines arbitrary: tr cur)
  case Nil
  then show ?case by simp
next
  case (Cons line lines)
  show ?case
  proof (cases "rx_match False rx_translation_source line")
    case (Some sourceMatch)
    with Cons.prems(1) have run:
      "translation_lines lines (obj_set tr (group1 (snd sourceMatch)) [])
         (Some (group1 (snd sourceMatch))) = Inr tr'"
      by simp
    have "table_distinct (obj_set tr (group1 (snd sourceMatch)) [])"
      using Cons.prems(2) by (rule table_distinct_set) simp
    from Cons.IH [OF run this] show ?thesis .
  next
    case None
    show ?thesis
    proof (cases "rx_match False rx_translation_skill line")
      case nomatch: None
      with None Cons.prems(1) have "translation_lines lines tr cur = Inr tr'" by simp
      from Cons.IH [OF this Cons.prems(2)] show ?thesis .
    next
      case (Some skillMatch)
      show ?thesis
      proof (cases cur)
        case nocur: None
        with None Some Cons.prems(1) have "translation_lines lines tr cur = Inr tr'" by simp
        from Cons.IH [OF this Cons.prems(2)] show ?thesis .
      next
        case (Some src)
        show ?thesis
        proof (cases "obj_get tr src")
          case (Own skillIds)
          with None \<open>rx_match False rx_translation_skill line = Some skillMatch\<close> Some Cons.prems(1)
          have run: "translation_lines lines
              (obj_set tr src (obj_set skillIds (group1 (snd skillMatch)) ())) cur = Inr tr'"
            by simp
          from Own have "(src, skillIds) \<in> set tr"
            by (auto simp: obj_get_def split: option.splits if_splits dest: map_of_SomeD)
          with Cons.prems(2) have "distinct (map fst skillIds)"
            by (auto simp: table_distinct_def)
          then have "distinct (map fst (obj_set skillIds (group1 (snd skillMatch)) ()))"
            by (rule obj_set_distinct)
          with Cons.prems(2)
          have "table_distinct (obj_set tr src (obj_set skillIds (group1 (snd skillMatch)) ()))"
            by (rule table_distinct_set)
          from Cons.IH [OF run this] show ?thesis .
        next
          case Inherited
          with None \<open>rx_match False rx_translation_skill line = Some skillMatch\<close> Some Cons.prems(1)
          show ?thesis by simp
        next
          case Undefined
          with None \<open>rx_match False rx_translation_skill line = Some skillMatch\<close> Some Cons.prems(1)
          show ?thesis by simp
        qed
      qed
    qed
  qed
qed

lemma parseTranslations_distinct:
  assumes "parseTranslations fs p = Inr tr"
  shows "table_distinct tr"
proof (cases "existsSync fs p")
  case False
  with assms show ?thesis by (simp add: parseTranslations_def table_distinct_def)
next
  case True
  with assms obtain content where "translation_lines (split_on 10 content) [] None = Inr tr"
    by (auto simp: parseTranslations_def split: sum.splits)
  then show ?thesis by (rule translation_lines_distinct) (simp add: table_distinct_def)
qed

definition valid_ids :: "index_entry list jsobj \<Rightarrow> jsstr \<Rightarrow> jsstr list" where
  "valid_ids bs k = (case obj_get bs k of Own es \<Rightarrow> map entry_id es | _ \<Rightarrow> [])"

lemma check_translations_eq:
  assumes "check_translations bs es = Inr orphans"
  shows "orphans = concat (map (\<lambda>e. check_ids (fst e) (valid_ids bs (fst e)) (obj_keys (snd e))) es)"
  using assms
proof (induction es arbitrary: orphans)
  case Nil
  then show ?case by simp
next
  case (Cons e es)
  from Cons.prems obtain others where rest: "check_translations bs es = Inr others"
    and o: "orphans = check_ids (fst e) (valid_ids bs (fst e)) (obj_keys (snd e)) @ others"
    by (cases "obj_get bs (fst e)")
       (auto simp: Let_def valid_ids_def split: sum.splits)
  from Cons.IH [OF rest] o show ?case by simp
qed

lemma valid_ids_set:
  assumes "index_tables es [] [] = Inr (bs, bp)"
  shows "set (valid_ids bs s) = entry_id ` {e \<in> set es. entry_source e = s}"
proof -
  from index_tables_bySource [OF assms, of s]
  have m: "map_of bs s =
      (case filter (\<lambda>e. entry_source e = s) es of [] \<Rightarrow> None | xs \<Rightarrow> Some xs)"
    by (simp split: list.splits)
  show ?thesis
  proof (cases "filter (\<lambda>e. entry_source e = s) es")
    case Nil
    with m have "map_of bs s = None" by simp
    then have "valid_ids bs s = []"
      by (simp add: valid_ids_def obj_get_def)
    moreover have "{e \<in> set es. entry_source e = s} = {}"
      using Nil by (auto simp: filter_empty_conv)
    ultimately show ?thesis by simp
  next
    case (Cons x xs)
    with m have "map_of bs s = Some (x # xs)" by simp
    then have "valid_ids bs s = map entry_id (filter (\<lambda>e. entry_source e = s) es)"
      using Cons by (simp add: valid_ids_def obj_get_def)
    then show ?thesis by auto
  qed
qed

lemma check_ids_source:
  "o' \<in> set (check_ids k valid ids) \<Longrightarrow> orphaned_source o' = k \<and> orphaned_id o' \<notin> set valid"
  by (induction ids) (auto split: if_splits)

lemma check_ids_count:
  "count_list (check_ids k valid ids)
     \<lparr>orphaned_source = k, orphaned_id = i, orphaned_type = ascii ''translation''\<rparr>
   = (if i \<in> set valid then 0 else count_list ids i)"
  by (induction ids) auto

lemma obj_keys_distinct:
  "distinct (map fst obj) \<Longrightarrow> distinct (obj_keys obj)"
  by (simp add: obj_keys_def obj_entries_distinct)

lemma obj_keys_set: "set (obj_keys obj) = fst ` set obj"
  by (simp add: obj_keys_def)

text \<open>
  Pass 3 in a result of \<^verbatim>\<open>verifyTranslations\<close>. For a source and an id under it in the
  parsed translation table: when no parsed index record has that source and that id, the
  list \<^verbatim>\<open>orphaned\<close> holds the record of that source and id exactly once; when some index
  record has them, no record of that source and id is in the list. The scanned
  directories play no part: the statement holds for every table \<^verbatim>\<open>statsBySource\<close>.
\<close>

lemma orphaned_translation_counted:
  assumes run: "verifyTranslations inherited_has ROOT_DIR fs statsBySource broken reg = Inr res"
    and pair: "(source, skillIds) \<in> set (result_translations res)" "i \<in> fst ` set skillIds"
  shows "(if \<exists>e \<in> set (result_indexEntries res). entry_source e = source \<and> entry_id e = i
          then \<forall>orphan \<in> set (result_orphaned res).
                 \<not> (orphaned_source orphan = source \<and> orphaned_id orphan = i)
          else count_list (result_orphaned res)
                 \<lparr>orphaned_source = source, orphaned_id = i,
                  orphaned_type = ascii ''translation''\<rparr> = 1)"
proof -
  let ?tr = "result_translations res"
  from verifyTranslations_result [OF run] obtain idx where
    ptr: "parseTranslations fs (reg @ [ascii ''i18n'', ascii ''zh-CN.yaml'']) = Inr ?tr"
    and pidx: "parseIndex fs (reg @ [ascii ''index.yaml'']) = Inr idx"
    and ents: "result_indexEntries res = parsed_entries idx"
    and orph: "check_translations (parsed_bySource idx) (obj_entries ?tr) = Inr (result_orphaned res)"
    by blast
  let ?bs = "parsed_bySource idx"
  let ?f = "\<lambda>e. check_ids (fst e) (valid_ids ?bs (fst e)) (obj_keys (snd e))"
  have oeq: "result_orphaned res = concat (map ?f (obj_entries ?tr))"
    using orph by (rule check_translations_eq)
  have valid: "set (valid_ids ?bs source)
      = entry_id ` {e \<in> set (result_indexEntries res). entry_source e = source}"
    unfolding ents using parseIndex_tables [OF pidx] by (rule valid_ids_set)
  have td: "table_distinct ?tr" using ptr by (rule parseTranslations_distinct)
  show ?thesis
  proof (cases "\<exists>e \<in> set (result_indexEntries res). entry_source e = source \<and> entry_id e = i")
    case True
    then have iv: "i \<in> set (valid_ids ?bs source)" unfolding valid by auto
    have "\<forall>orphan \<in> set (result_orphaned res).
                 \<not> (orphaned_source orphan = source \<and> orphaned_id orphan = i)"
    proof (intro ballI notI)
      fix orphan assume "orphan \<in> set (result_orphaned res)"
        and c: "orphaned_source orphan = source \<and> orphaned_id orphan = i"
      then obtain k and ids :: "unit jsobj"
        where "orphan \<in> set (check_ids k (valid_ids ?bs k) (obj_keys ids))"
        unfolding oeq by auto
      from check_ids_source [OF this] c iv show False by auto
    qed
    with True show ?thesis by simp
  next
    case False
    then have niv: "i \<notin> set (valid_ids ?bs source)" unfolding valid by auto
    let ?r = "\<lparr>orphaned_source = source, orphaned_id = i, orphaned_type = ascii ''translation''\<rparr>"
    have d': "distinct (map fst (obj_entries ?tr))"
      using td by (simp add: table_distinct_def obj_entries_distinct)
    have mem': "(source, skillIds) \<in> set (obj_entries ?tr)" using pair(1) by simp
    have other: "\<forall>e \<in> set (obj_entries ?tr). fst e \<noteq> source \<longrightarrow> ?r \<notin> set (?f e)"
    proof (intro ballI impI notI)
      fix e assume "fst e \<noteq> source" and "?r \<in> set (?f e)"
      from check_ids_source [OF this(2)] \<open>fst e \<noteq> source\<close> show False by simp
    qed
    have "count_list (result_orphaned res) ?r = count_list (?f (source, skillIds)) ?r"
      unfolding oeq by (rule count_concat_single [OF d' mem' other])
    also have "\<dots> = count_list (obj_keys skillIds) i"
      using niv by (simp add: check_ids_count)
    also have "\<dots> = 1"
    proof (rule count_list_distinct)
      have "distinct (map fst skillIds)"
        using td pair(1) by (force simp: table_distinct_def)
      then show "distinct (obj_keys skillIds)" by (rule obj_keys_distinct)
      show "i \<in> set (obj_keys skillIds)" using pair(2) by (simp add: obj_keys_set)
    qed
    finally have "count_list (result_orphaned res) ?r = 1" .
    with False show ?thesis by (simp only: if_False)
  qed
qed

section \<open>When the reconciliation returns\<close>

text \<open>
  \<^verbatim>\<open>parseTranslations\<close> returns whenever its file is absent or is a file: the source under
  which an id is stored has been stored before. \<^verbatim>\<open>parseIndex\<close> returns when no parsed
  record has a source named like an inherited property of objects, and pass 3 when no
  source of the translation table is.
\<close>

lemma obj_set_has_key: "k \<in> fst ` set (obj_set obj k v)"
  by (induction obj) auto

lemma obj_get_own:
  "k \<in> fst ` set obj \<Longrightarrow> \<exists>v. obj_get obj k = Own v"
proof -
  assume "k \<in> fst ` set obj"
  then have "map_of obj k \<noteq> None" by (simp add: map_of_eq_None_iff)
  then show ?thesis by (auto simp: obj_get_def)
qed

lemma translation_lines_returns:
  assumes "\<forall>src. cur0 = Some src \<longrightarrow> src \<in> fst ` set tbl"
  shows "\<exists>tr. translation_lines ls tbl cur0 = Inr tr"
  using assms
proof (induction ls arbitrary: tbl cur0)
  case Nil
  then show ?case by simp
next
  case (Cons line ls)
  show ?case
  proof (cases "rx_match False rx_translation_source line")
    case (Some sourceMatch)
    have "\<exists>tr. translation_lines ls (obj_set tbl (group1 (snd sourceMatch)) [])
             (Some (group1 (snd sourceMatch))) = Inr tr"
      by (rule Cons.IH) (simp add: obj_set_has_key)
    with Some show ?thesis by simp
  next
    case None
    show ?thesis
    proof (cases "rx_match False rx_translation_skill line")
      case nomatch: None
      with None Cons.IH [OF Cons.prems] show ?thesis by simp
    next
      case (Some skillMatch)
      show ?thesis
      proof (cases cur0)
        case nocur: None
        with None Some Cons.IH [OF Cons.prems] show ?thesis by simp
      next
        case cur: (Some src)
        with Cons.prems have "src \<in> fst ` set tbl" by simp
        from obj_get_own [OF this] obtain skillIds where own: "obj_get tbl src = Own skillIds"
          by blast
        have "\<exists>tr. translation_lines ls
                 (obj_set tbl src (obj_set skillIds (group1 (snd skillMatch)) ()))
                 cur0 = Inr tr"
          by (rule Cons.IH) (simp add: cur obj_set_has_key)
        with None Some cur own show ?thesis by simp
      qed
    qed
  qed
qed

lemma parseTranslations_returns:
  assumes "\<not> existsSync fs p \<or> (\<exists>c. lookup fs p = Some (File c))"
  shows "\<exists>tr. parseTranslations fs p = Inr tr"
proof (cases "existsSync fs p")
  case False
  then show ?thesis by (simp add: parseTranslations_def)
next
  case True
  with assms obtain c where "lookup fs p = Some (File c)" by blast
  then have "readFileSync fs p = Inr c" by (simp add: readFileSync_def)
  moreover have "\<exists>tr. translation_lines (split_on 10 c) [] None = Inr tr"
    by (rule translation_lines_returns) simp
  ultimately show ?thesis using True by (simp add: parseTranslations_def)
qed

lemma index_tables_returns:
  assumes "\<forall>e \<in> set es. entry_source e \<notin> set prototype_keys"
  shows "\<exists>t. index_tables es bySource byPath = Inr t"
  using assms
proof (induction es arbitrary: bySource byPath)
  case Nil
  then show ?case by simp
next
  case (Cons e es)
  then have np: "entry_source e \<notin> set prototype_keys"
    and rest: "\<forall>e \<in> set es. entry_source e \<notin> set prototype_keys"
    by simp_all
  show ?case
  proof (cases "obj_get bySource (entry_source e)")
    case Inherited
    with obj_get_not_inherited [OF np, of bySource] show ?thesis by simp
  next
    case Undefined
    with Cons.IH [OF rest] show ?thesis by (simp add: Let_def)
  next
    case (Own l)
    with Cons.IH [OF rest] show ?thesis by (simp add: Let_def)
  qed
qed

lemma parseIndex_returns:
  assumes "\<not> existsSync fs p
     \<or> (\<exists>c. lookup fs p = Some (File c)
           \<and> (\<forall>e \<in> set (index_lines (split_on 10 c) [] None).
                 entry_source e \<notin> set prototype_keys))"
  shows "\<exists>idx. parseIndex fs p = Inr idx"
proof (cases "existsSync fs p")
  case False
  then show ?thesis by (simp add: parseIndex_def)
next
  case True
  with assms obtain c where c: "lookup fs p = Some (File c)"
    and np: "\<forall>e \<in> set (index_lines (split_on 10 c) [] None). entry_source e \<notin> set prototype_keys"
    by blast
  from c have rd: "readFileSync fs p = Inr c" by (simp add: readFileSync_def)
  from index_tables_returns [OF np, of "[]" "[]"] obtain t
    where "index_tables (index_lines (split_on 10 c) [] None) [] [] = Inr t" by blast
  with True rd show ?thesis by (simp add: parseIndex_def Let_def)
qed

lemma check_translations_returns:
  assumes "\<forall>e \<in> set es. fst e \<notin> set prototype_keys"
  shows "\<exists>orphaned. check_translations indexBySource es = Inr orphaned"
  using assms
proof (induction es)
  case Nil
  then show ?case by simp
next
  case (Cons e es)
  then have np: "fst e \<notin> set prototype_keys" and rest: "\<forall>e \<in> set es. fst e \<notin> set prototype_keys"
    by simp_all
  from Cons.IH [OF rest] obtain others where others: "check_translations indexBySource es = Inr others"
    by blast
  show ?case
  proof (cases "obj_get indexBySource (fst e)")
    case Inherited
    with obj_get_not_inherited [OF np, of indexBySource] show ?thesis by simp
  next
    case Undefined
    with others show ?thesis by (simp add: Let_def)
  next
    case (Own l)
    with others show ?thesis by (simp add: Let_def)
  qed
qed

lemma verifyTranslations_returns:
  assumes ptr: "parseTranslations fs (reg @ [ascii ''i18n'', ascii ''zh-CN.yaml'']) = Inr tr"
    and pidx: "parseIndex fs (reg @ [ascii ''index.yaml'']) = Inr idx"
    and own: "\<forall>s \<in> fst ` set tr. s \<notin> set prototype_keys"
  shows "\<exists>res. verifyTranslations inherited_has ROOT_DIR fs statsBySource broken reg = Inr res
     \<and> result_translations res = tr \<and> result_indexEntries res = parsed_entries idx"
proof -
  have "\<forall>e \<in> set (obj_entries tr). fst e \<notin> set prototype_keys"
    using own by auto
  from check_translations_returns [OF this, of "parsed_bySource idx"] obtain orphaned
    where "check_translations (parsed_bySource idx) (obj_entries tr) = Inr orphaned" by blast
  then show ?thesis
    using ptr pidx
    by (simp add: verifyTranslations_def Let_def parsed_bySource_def parsed_entries_def)
qed

text \<open>
  With the two files of the registry parsed and no source of the translation table named
  like an inherited property, \<^verbatim>\<open>verifyTranslations\<close> returns, and its result reports a
  scanned skill without an index record once.
\<close>

theorem missing_index_outside_inherited_names:
  assumes wf: "wf_node fs"
    and coll: "collectStats ROOT_DIR fs = Inr (statsBySource, broken)"
    and ptr: "parseTranslations fs (reg @ [ascii ''i18n'', ascii ''zh-CN.yaml'']) = Inr tr"
    and pidx: "parseIndex fs (reg @ [ascii ''index.yaml'']) = Inr idx"
    and own: "\<forall>s \<in> fst ` set tr. s \<notin> set prototype_keys"
    and entry: "(source, skills) \<in> set statsBySource" "skill \<in> set skills"
    and absent: "expected_path source (skill_id skill) \<notin> entry_path ` set (parsed_entries idx)"
  shows "\<exists>res. verifyTranslations inherited_has ROOT_DIR fs statsBySource broken reg = Inr res
    \<and> count_list (result_missing res)
           \<lparr>missing_source = source, missing_id = skill_id skill, missing_type = ascii ''index'',
            missing_path = Some (expected_path source (skill_id skill))\<rparr> = 1
    \<and> (\<forall>m \<in> set (result_missing res).
          missing_type m = ascii ''translation''
            \<longrightarrow> missing_path m \<noteq> Some (expected_path source (skill_id skill)))"
proof -
  from verifyTranslations_returns [OF ptr pidx own, of inherited_has ROOT_DIR statsBySource broken]
  obtain res where run: "verifyTranslations inherited_has ROOT_DIR fs statsBySource broken reg = Inr res"
    and ents: "result_indexEntries res = parsed_entries idx"
    by blast
  from absent have absent': "expected_path source (skill_id skill)
      \<notin> entry_path ` set (result_indexEntries res)"
    by (simp add: ents)
  from missing_index_counted [OF wf coll run entry absent'] run
  show ?thesis by blast
qed

lemma registry_tr': "parseTranslations registry_example
     ([ascii ''skillwisp-cli'', ascii ''registry''] @ [ascii ''i18n'', ascii ''zh-CN.yaml''])
  = Inr [(ascii ''other'', [(ascii ''bar'', ())]), (ascii ''foo'', [(ascii ''baz'', ())])]"
  using registry_tr by simp

lemma registry_idx': "\<exists>idx. parseIndex registry_example
     ([ascii ''skillwisp-cli'', ascii ''registry''] @ [ascii ''index.yaml'']) = Inr idx
   \<and> parsed_entries idx = [\<lparr>entry_id = ascii ''bar'', entry_source = ascii ''other'',
          entry_path = ascii ''@foo/bar''\<rparr>]"
proof -
  from registry_idx obtain bs bp where
    "parseIndex registry_example (map ascii [''skillwisp-cli'', ''registry'', ''index.yaml''])
     = Inr (Some \<lparr>index_entries = [\<lparr>entry_id = ascii ''bar'', entry_source = ascii ''other'',
          entry_path = ascii ''@foo/bar''\<rparr>], index_bySource = bs, index_byPath = bp\<rparr>)"
    by blast
  then show ?thesis by (simp add: parsed_entries_def)
qed

lemma registry_own:
  "\<forall>s \<in> fst ` set [(ascii ''other'', [(ascii ''bar'', ())]), (ascii ''foo'', [(ascii ''baz'', ())])].
     s \<notin> set prototype_keys"
  by (simp add: prototype_keys_def ascii_def)

theorem missing_index_example:
  "\<exists>res. verifyTranslations (\<lambda>s k. False) [ascii ''repo''] registry_example registry_stats []
        [ascii ''skillwisp-cli'', ascii ''registry''] = Inr res
     \<and> count_list (result_missing res)
         \<lparr>missing_source = ascii ''foo'', missing_id = ascii ''qux'',
          missing_type = ascii ''index'', missing_path = Some (ascii ''@foo/qux'')\<rparr> = 1"
proof -
  let ?qux = "\<lparr>skill_id = ascii ''qux'',
         skill_path = map ascii [''repo'', ''skills'', ''@foo'', ''qux'', ''SKILL.md''],
         skill_name = ascii ''qux'', skill_description = []\<rparr>"
  from registry_idx' obtain idx where pidx: "parseIndex registry_example
     ([ascii ''skillwisp-cli'', ascii ''registry''] @ [ascii ''index.yaml'']) = Inr idx"
    and ents: "parsed_entries idx = [\<lparr>entry_id = ascii ''bar'', entry_source = ascii ''other'',
          entry_path = ascii ''@foo/bar''\<rparr>]"
    by blast
  have p: "expected_path (ascii ''foo'') (skill_id ?qux) = ascii ''@foo/qux''"
    by (simp add: expected_path_def ascii_def)
  have absent: "expected_path (ascii ''foo'') (skill_id ?qux) \<notin> entry_path ` set (parsed_entries idx)"
    unfolding p ents by (simp add: ascii_def)
  have e1: "(ascii ''foo'', snd (hd registry_stats)) \<in> set registry_stats"
    by (simp add: registry_stats_def)
  have e2: "?qux \<in> set (snd (hd registry_stats))"
    by (simp add: registry_stats_def)
  from missing_index_outside_inherited_names [OF registry_wf registry_collect registry_tr' pidx registry_own e1 e2 absent,
      of "\<lambda>s k. False"]
  show ?thesis unfolding p by auto
qed

text \<open>A repository with the skill \<^verbatim>\<open>@foo/bar\<close> beside a registry without an index, whose
  translations have the id \<^verbatim>\<open>a\<close> under the source \<^verbatim>\<open>constructor\<close>.\<close>

definition inherited_source_registry :: node where
  "inherited_source_registry =
     Dir [(ascii ''repo'',
            Dir [(ascii ''skills'',
              Dir [(ascii ''@foo'',
                Dir [(ascii ''bar'', Dir [(ascii ''SKILL.md'', File (ascii ''# bar''))])])])]),
          (ascii ''skillwisp-cli'',
            Dir [(ascii ''registry'',
              Dir [(ascii ''i18n'',
                     Dir [(ascii ''zh-CN.yaml'',
                       File (ascii ''  constructor:'' @ [10] @ ascii ''    a:'' @ [10]))])])])]"

definition inherited_source_stats :: "skill list jsobj" where
  "inherited_source_stats =
     [(ascii ''foo'',
       [\<lparr>skill_id = ascii ''bar'',
         skill_path = map ascii [''repo'', ''skills'', ''@foo'', ''bar'', ''SKILL.md''],
         skill_name = ascii ''bar'', skill_description = []\<rparr>])]"

lemma inherited_source_collect:
  "collectStats [ascii ''repo''] inherited_source_registry = Inr (inherited_source_stats, [])"
  by (simp add: inherited_source_registry_def inherited_source_stats_def scan_eval meta_eval
      str_eval rx_eval fs_eval Let_def)

lemma inherited_source_tr:
  "parseTranslations inherited_source_registry
     (map ascii [''skillwisp-cli'', ''registry'', ''i18n'', ''zh-CN.yaml''])
   = Inr [(ascii ''constructor'', [(ascii ''a'', ())])]"
  by (simp add: inherited_source_registry_def registry_eval str_eval rx_eval fs_eval Let_def)

lemma inherited_source_idx:
  "parseIndex inherited_source_registry (map ascii [''skillwisp-cli'', ''registry'', ''index.yaml''])
   = Inr None"
  by (simp add: inherited_source_registry_def parseIndex_def existsSync_def ascii_def)

lemma inherited_source_verify:
  "verifyTranslations inherited_has [ascii ''repo''] inherited_source_registry stats broken
     [ascii ''skillwisp-cli'', ascii ''registry''] = Inl TypeError"
proof -
  have tr: "parseTranslations inherited_source_registry
     ([ascii ''skillwisp-cli'', ascii ''registry''] @ [ascii ''i18n'', ascii ''zh-CN.yaml''])
   = Inr [(ascii ''constructor'', [(ascii ''a'', ())])]"
    using inherited_source_tr by simp
  have idx: "parseIndex inherited_source_registry
     ([ascii ''skillwisp-cli'', ascii ''registry''] @ [ascii ''index.yaml'']) = Inr None"
    using inherited_source_idx by simp
  have e: "obj_entries [(ascii ''constructor'', [(ascii ''a'', ())])]
      = [(ascii ''constructor'', [(ascii ''a'', ())])]"
    by (simp add: obj_entries_def is_array_index_def is_digit_def ascii_def)
  have g: "obj_get [] (ascii ''constructor'') = (Inherited :: index_entry list lookup_result)"
    by (simp add: obj_get_def prototype_keys_def)
  show ?thesis
    unfolding verifyTranslations_def Let_def tr idx
    by (simp add: e g)
qed

text \<open>
  C2. The claim gives, for every scanned skill whose path \<^verbatim>\<open>@s/i\<close> is the path of no parsed
  index record, one record of type \<^verbatim>\<open>index\<close> in the list \<^verbatim>\<open>missing\<close> of the result. In
  \<open>inherited_source_registry\<close> the scan finds the skill \<^verbatim>\<open>@foo/bar\<close> and the registry has
  no index, so the claim puts the record of \<^verbatim>\<open>foo\<close>, \<^verbatim>\<open>bar\<close> and \<^verbatim>\<open>@foo/bar\<close> in the list.
  The translations have the source \<^verbatim>\<open>constructor\<close>: in pass 3
  \<^verbatim>\<open>indexBySource[source]\<close> reads the inherited \<^verbatim>\<open>constructor\<close>, the default \<^verbatim>\<open>[]\<close> is not
  taken, \<^verbatim>\<open>map\<close> is no function of the value and \<^verbatim>\<open>verifyTranslations\<close> throws a
  \<^verbatim>\<open>TypeError\<close>: there is no result and no list, and \<^verbatim>\<open>main\<close> ends with the error.
\<close>

theorem unindexed_skill_not_reported:
  "collectStats [ascii ''repo''] inherited_source_registry = Inr (inherited_source_stats, [])
   \<and> (ascii ''foo'', [\<lparr>skill_id = ascii ''bar'',
         skill_path = map ascii [''repo'', ''skills'', ''@foo'', ''bar'', ''SKILL.md''],
         skill_name = ascii ''bar'', skill_description = []\<rparr>]) \<in> set inherited_source_stats
   \<and> parseIndex inherited_source_registry
       (map ascii [''skillwisp-cli'', ''registry'', ''index.yaml'']) = Inr None
   \<and> verifyTranslations (\<lambda>s k. False) [ascii ''repo''] inherited_source_registry
       inherited_source_stats [] [ascii ''skillwisp-cli'', ascii ''registry''] = Inl TypeError
   \<and> main (\<lambda>s k. False) [ascii ''repo''] [] inherited_source_registry
       = (Some TypeError, inherited_source_registry)"
proof -
  have mem: "(ascii ''foo'', [\<lparr>skill_id = ascii ''bar'',
         skill_path = map ascii [''repo'', ''skills'', ''@foo'', ''bar'', ''SKILL.md''],
         skill_name = ascii ''bar'', skill_description = []\<rparr>]) \<in> set inherited_source_stats"
    by (simp add: inherited_source_stats_def)
  have ex: "existsSync inherited_source_registry [ascii ''skillwisp-cli'', ascii ''registry'']"
    by (simp add: inherited_source_registry_def existsSync_def ascii_def)
  have run: "main (\<lambda>s k. False) [ascii ''repo''] [] inherited_source_registry
       = (Some TypeError, inherited_source_registry)"
    by (simp add: main_def inherited_source_collect inherited_source_verify ex Let_def)
  show ?thesis
    by (intro conjI) (rule inherited_source_collect, rule mem, rule inherited_source_idx,
        rule inherited_source_verify, rule run)
qed

text \<open>
  Where the index record that a skill's path finds has the source of the skill's
  directory, the record of type \<^verbatim>\<open>translation\<close> is produced if and only if the
  translation table lacks the id of the record under the source of the record.
\<close>

theorem missing_translation_when_sources_agree:
  assumes wf: "wf_node fs"
    and coll: "collectStats ROOT_DIR fs = Inr (statsBySource, broken)"
    and ptr: "parseTranslations fs (reg @ [ascii ''i18n'', ascii ''zh-CN.yaml'']) = Inr tr"
    and pidx: "parseIndex fs (reg @ [ascii ''index.yaml'']) = Inr idx"
    and own: "\<forall>s \<in> fst ` set tr. s \<notin> set prototype_keys"
    and entry: "(source, skills) \<in> set statsBySource" "skill \<in> set skills"
    and found: "index_record_at (parsed_entries idx) (expected_path source (skill_id skill))
                  = Some indexEntry"
    and same: "entry_source indexEntry = source"
    and ownid: "entry_id indexEntry \<notin> set prototype_keys"
  shows "\<exists>res. verifyTranslations inherited_has ROOT_DIR fs statsBySource broken reg = Inr res
    \<and> ((\<exists>m \<in> set (result_missing res).
            missing_type m = ascii ''translation''
            \<and> missing_path m = Some (expected_path source (skill_id skill)))
       = (\<not> (\<exists>skillIds. map_of tr (entry_source indexEntry) = Some skillIds
                \<and> entry_id indexEntry \<in> fst ` set skillIds)))"
proof -
  from verifyTranslations_returns [OF ptr pidx own, of inherited_has ROOT_DIR statsBySource broken]
  obtain res where run: "verifyTranslations inherited_has ROOT_DIR fs statsBySource broken reg = Inr res"
    and tr: "result_translations res = tr"
    and ents: "result_indexEntries res = parsed_entries idx"
    by blast
  from found have found': "index_record_at (result_indexEntries res)
      (expected_path source (skill_id skill)) = Some indexEntry"
    by (simp add: ents)
  from translation_lookup_by_scanned_source [OF wf coll run entry found' ownid]
  have "(\<exists>m \<in> set (result_missing res).
            missing_type m = ascii ''translation''
            \<and> missing_path m = Some (expected_path source (skill_id skill)))
       = (\<not> (\<exists>skillIds. map_of tr (entry_source indexEntry) = Some skillIds
                \<and> entry_id indexEntry \<in> fst ` set skillIds))"
    by (simp add: tr same)
  with run show ?thesis by blast
qed

text \<open>The repository of \<open>registry_example\<close> with the index record of \<^verbatim>\<open>bar\<close> under the
  source \<^verbatim>\<open>foo\<close> of its directory.\<close>

definition agreeing_registry :: node where
  "agreeing_registry =
     Dir [(ascii ''repo'',
            Dir [(ascii ''skills'',
              Dir [(ascii ''@foo'',
                Dir [(ascii ''bar'', Dir [(ascii ''SKILL.md'', File (ascii ''# bar''))])])])]),
          (ascii ''skillwisp-cli'',
            Dir [(ascii ''registry'',
              Dir [(ascii ''index.yaml'',
                     File (ascii ''- id: bar'' @ [10] @ ascii ''  source: foo'' @ [10]
                           @ ascii ''  path: '' @ [39] @ ascii ''@foo/bar'' @ [39] @ [10])),
                   (ascii ''i18n'',
                     Dir [(ascii ''zh-CN.yaml'',
                       File (ascii ''  foo:'' @ [10] @ ascii ''    baz:'' @ [10]))])])])]"

theorem missing_translation_example:
  "\<exists>res. verifyTranslations (\<lambda>s k. False) [ascii ''repo''] agreeing_registry
        inherited_source_stats [] [ascii ''skillwisp-cli'', ascii ''registry''] = Inr res
     \<and> (\<exists>m \<in> set (result_missing res).
          missing_type m = ascii ''translation'' \<and> missing_path m = Some (ascii ''@foo/bar''))"
proof -
  let ?bar = "\<lparr>skill_id = ascii ''bar'',
         skill_path = map ascii [''repo'', ''skills'', ''@foo'', ''bar'', ''SKILL.md''],
         skill_name = ascii ''bar'', skill_description = []\<rparr>"
  let ?e = "\<lparr>entry_id = ascii ''bar'', entry_source = ascii ''foo'',
                 entry_path = ascii ''@foo/bar''\<rparr>"
  let ?tr = "[(ascii ''foo'', [(ascii ''baz'', ())])]"
  have wf: "wf_node agreeing_registry"
    by (simp add: agreeing_registry_def valid_name_def ascii_def)
  have coll: "collectStats [ascii ''repo''] agreeing_registry = Inr (inherited_source_stats, [])"
    by (simp add: agreeing_registry_def inherited_source_stats_def scan_eval meta_eval
      str_eval rx_eval fs_eval Let_def)
  have ptr: "parseTranslations agreeing_registry
     ([ascii ''skillwisp-cli'', ascii ''registry''] @ [ascii ''i18n'', ascii ''zh-CN.yaml''])
     = Inr ?tr"
    by (simp add: agreeing_registry_def registry_eval str_eval rx_eval fs_eval Let_def)
  have "\<exists>bs bp. parseIndex agreeing_registry
     ([ascii ''skillwisp-cli'', ascii ''registry''] @ [ascii ''index.yaml''])
     = Inr (Some \<lparr>index_entries = [?e], index_bySource = bs, index_byPath = bp\<rparr>)"
    by (simp add: agreeing_registry_def registry_eval str_eval rx_eval fs_eval Let_def)
  then obtain idx where pidx: "parseIndex agreeing_registry
     ([ascii ''skillwisp-cli'', ascii ''registry''] @ [ascii ''index.yaml'']) = Inr idx"
    and ents: "parsed_entries idx = [?e]"
    by (auto simp: parsed_entries_def)
  have own: "\<forall>s \<in> fst ` set ?tr. s \<notin> set prototype_keys"
    by (simp add: prototype_keys_def ascii_def)
  have p: "expected_path (ascii ''foo'') (skill_id ?bar) = ascii ''@foo/bar''"
    by (simp add: expected_path_def ascii_def)
  have found: "index_record_at (parsed_entries idx) (expected_path (ascii ''foo'') (skill_id ?bar))
      = Some ?e"
    unfolding p ents by (simp add: index_record_at_def)
  have same: "entry_source ?e = ascii ''foo''" by simp
  have ownid: "entry_id ?e \<notin> set prototype_keys"
    by (simp add: prototype_keys_def ascii_def)
  have e1: "(ascii ''foo'', [?bar]) \<in> set inherited_source_stats"
    by (simp add: inherited_source_stats_def)
  have e2: "?bar \<in> set [?bar]" by simp
  have lacks: "\<not> (\<exists>skillIds. map_of ?tr (entry_source ?e) = Some skillIds
                \<and> entry_id ?e \<in> fst ` set skillIds)"
    by (simp add: ascii_def)
  from missing_translation_when_sources_agree [OF wf coll ptr pidx own e1 e2 found same ownid, of "\<lambda>s k. False"] lacks
  show ?thesis unfolding p by auto
qed

text \<open>
  C3. The claim takes both keys of the lookup from the matching index record:
  \<^verbatim>\<open>translations[indexRecord.source][indexRecord.id]\<close>. Pass 1 reads
  \<^verbatim>\<open>translations[source]\<close> with the source of the scanned directory and takes only the id
  from the index record, while pass 3 of the same function groups the ids of the index by
  the source of their records. In \<open>registry_example\<close> the scanned skill \<^verbatim>\<open>@foo/bar\<close> finds the
  index record with source \<^verbatim>\<open>other\<close> and id \<^verbatim>\<open>bar\<close>, and the translation table has \<^verbatim>\<open>bar\<close>
  under \<^verbatim>\<open>other\<close>: the claim produces no record of type \<^verbatim>\<open>translation\<close>, and
  \<^verbatim>\<open>verifyTranslations\<close> produces the record of \<^verbatim>\<open>foo\<close> and \<^verbatim>\<open>bar\<close>.
\<close>

theorem translation_lookup_ignores_index_source:
  "collectStats [ascii ''repo''] registry_example = Inr (registry_stats, [])
   \<and> verifyTranslations (\<lambda>s k. False) [ascii ''repo''] registry_example registry_stats []
        [ascii ''skillwisp-cli'', ascii ''registry''] = Inr registry_result
   \<and> index_record_at (result_indexEntries registry_result) (ascii ''@foo/bar'')
        = Some \<lparr>entry_id = ascii ''bar'', entry_source = ascii ''other'',
                 entry_path = ascii ''@foo/bar''\<rparr>
   \<and> map_of (result_translations registry_result) (ascii ''other'') = Some [(ascii ''bar'', ())]
   \<and> \<lparr>missing_source = ascii ''foo'', missing_id = ascii ''bar'',
       missing_type = ascii ''translation'', missing_path = Some (ascii ''@foo/bar'')\<rparr>
      \<in> set (result_missing registry_result)"
proof -
  have a: "index_record_at (result_indexEntries registry_result) (ascii ''@foo/bar'')
        = Some \<lparr>entry_id = ascii ''bar'', entry_source = ascii ''other'',
                 entry_path = ascii ''@foo/bar''\<rparr>"
    by (simp add: registry_result_def index_record_at_def)
  have b: "map_of (result_translations registry_result) (ascii ''other'') = Some [(ascii ''bar'', ())]"
    by (simp add: registry_result_def)
  have c: "\<lparr>missing_source = ascii ''foo'', missing_id = ascii ''bar'',
       missing_type = ascii ''translation'', missing_path = Some (ascii ''@foo/bar'')\<rparr>
      \<in> set (result_missing registry_result)"
    by (simp add: registry_result_def)
  show ?thesis
    by (intro conjI) (rule registry_collect, rule registry_verify, rule a, rule b, rule c)
qed

text \<open>
  With the two files of the registry parsed and no source of the translation table named
  like an inherited property, \<^verbatim>\<open>verifyTranslations\<close> returns, and its result reports a
  translation without an index record once and no translation with one.
\<close>

theorem orphaned_translation_outside_inherited_names:
  assumes ptr: "parseTranslations fs (reg @ [ascii ''i18n'', ascii ''zh-CN.yaml'']) = Inr tr"
    and pidx: "parseIndex fs (reg @ [ascii ''index.yaml'']) = Inr idx"
    and own: "\<forall>s \<in> fst ` set tr. s \<notin> set prototype_keys"
    and pair: "(source, skillIds) \<in> set tr" "i \<in> fst ` set skillIds"
  shows "\<exists>res. verifyTranslations inherited_has ROOT_DIR fs statsBySource broken reg = Inr res
    \<and> (if \<exists>e \<in> set (parsed_entries idx). entry_source e = source \<and> entry_id e = i
          then \<forall>orphan \<in> set (result_orphaned res).
                 \<not> (orphaned_source orphan = source \<and> orphaned_id orphan = i)
          else count_list (result_orphaned res)
                 \<lparr>orphaned_source = source, orphaned_id = i,
                  orphaned_type = ascii ''translation''\<rparr> = 1)"
proof -
  from verifyTranslations_returns [OF ptr pidx own, of inherited_has ROOT_DIR statsBySource broken]
  obtain res where run: "verifyTranslations inherited_has ROOT_DIR fs statsBySource broken reg = Inr res"
    and tr: "result_translations res = tr"
    and ents: "result_indexEntries res = parsed_entries idx"
    by blast
  from pair(1) have pair': "(source, skillIds) \<in> set (result_translations res)"
    by (simp add: tr)
  from orphaned_translation_counted [OF run pair' pair(2)]
  have "(if \<exists>e \<in> set (parsed_entries idx). entry_source e = source \<and> entry_id e = i
          then \<forall>orphan \<in> set (result_orphaned res).
                 \<not> (orphaned_source orphan = source \<and> orphaned_id orphan = i)
          else count_list (result_orphaned res)
                 \<lparr>orphaned_source = source, orphaned_id = i,
                  orphaned_type = ascii ''translation''\<rparr> = 1)"
    by (simp add: ents)
  with run show ?thesis by blast
qed

theorem orphaned_translation_example:
  "\<exists>res. verifyTranslations (\<lambda>s k. False) [ascii ''repo''] registry_example registry_stats []
        [ascii ''skillwisp-cli'', ascii ''registry''] = Inr res
     \<and> count_list (result_orphaned res)
         \<lparr>orphaned_source = ascii ''foo'', orphaned_id = ascii ''baz'',
          orphaned_type = ascii ''translation''\<rparr> = 1"
proof -
  from registry_idx' obtain idx where pidx: "parseIndex registry_example
     ([ascii ''skillwisp-cli'', ascii ''registry''] @ [ascii ''index.yaml'']) = Inr idx"
    and ents: "parsed_entries idx = [\<lparr>entry_id = ascii ''bar'', entry_source = ascii ''other'',
          entry_path = ascii ''@foo/bar''\<rparr>]"
    by blast
  have p1: "(ascii ''foo'', [(ascii ''baz'', ())])
      \<in> set [(ascii ''other'', [(ascii ''bar'', ())]), (ascii ''foo'', [(ascii ''baz'', ())])]"
    by simp
  have p2: "ascii ''baz'' \<in> fst ` set [(ascii ''baz'', ())]" by simp
  have cond: "\<not> (\<exists>e \<in> set (parsed_entries idx).
            entry_source e = ascii ''foo'' \<and> entry_id e = ascii ''baz'')"
    unfolding ents by (simp add: ascii_def)
  from orphaned_translation_outside_inherited_names [OF registry_tr' pidx registry_own p1 p2,
      of "\<lambda>s k. False" "[ascii ''repo'']" registry_stats "[]"] cond
  show ?thesis by (simp only: if_False)
qed

text \<open>
  C4. The claim lists as orphaned every pair of a source and an id of the translation
  table that no index record has. In \<open>inherited_source_registry\<close> the table has the id
  \<^verbatim>\<open>a\<close> under the source \<^verbatim>\<open>constructor\<close> and there is no index record at all, so the claim
  lists that pair. Pass 3 reads \<^verbatim>\<open>indexBySource[source]\<close> through the prototype chain,
  finds the inherited \<^verbatim>\<open>constructor\<close> instead of the default \<^verbatim>\<open>[]\<close>, and
  \<^verbatim>\<open>verifyTranslations\<close> throws a \<^verbatim>\<open>TypeError\<close> where the pair would be listed.
\<close>

theorem inherited_source_orphan_not_reported:
  "parseTranslations inherited_source_registry
       (map ascii [''skillwisp-cli'', ''registry'', ''i18n'', ''zh-CN.yaml''])
     = Inr [(ascii ''constructor'', [(ascii ''a'', ())])]
   \<and> parseIndex inherited_source_registry
       (map ascii [''skillwisp-cli'', ''registry'', ''index.yaml'']) = Inr None
   \<and> collectStats [ascii ''repo''] inherited_source_registry = Inr (inherited_source_stats, [])
   \<and> verifyTranslations (\<lambda>s k. False) [ascii ''repo''] inherited_source_registry
       inherited_source_stats [] [ascii ''skillwisp-cli'', ascii ''registry''] = Inl TypeError"
  by (intro conjI) (rule inherited_source_tr, rule inherited_source_idx,
      rule inherited_source_collect, rule inherited_source_verify)

section \<open>Matching, position by position\<close>

text \<open>
  The equations of the matcher for each kind of item, the literal runs, and the search
  for the leftmost match, for the proofs about patterns on every text.
\<close>

lemma rx_at_Lit:
  "rx_at ml (Lit c # r) prev s =
     (case s of [] \<Rightarrow> None | d # ds \<Rightarrow> if d = c then rx_at ml r (Some d) ds else None)"
  by simp

lemma rx_at_Cls:
  "rx_at ml (Cls p # r) prev s =
     (case s of [] \<Rightarrow> None | d # ds \<Rightarrow> if p d then rx_at ml r (Some d) ds else None)"
  by simp

lemma rx_at_Rep:
  "rx_at ml (Rep g lo hi p # r) prev s =
     first_some (\<lambda>k. rx_at ml r (prev_after prev s k) (drop k s)) (rep_counts g lo hi p s)"
  by simp

lemma rx_at_GOpen: "rx_at ml (GOpen # r) prev s = map_option (Cons s) (rx_at ml r prev s)"
  by simp

lemma rx_at_GClose: "rx_at ml (GClose # r) prev s = map_option (Cons s) (rx_at ml r prev s)"
  by simp

lemma rx_at_Bol: "rx_at ml (Bol # r) prev s = (if at_bol ml prev then rx_at ml r prev s else None)"
  by simp

lemma rx_at_Eol: "rx_at ml (Eol # r) prev s = (if at_eol ml s then rx_at ml r prev s else None)"
  by simp

lemmas rx_at_items = rx_at_Lit rx_at_Cls rx_at_Rep rx_at_GOpen rx_at_GClose rx_at_Bol rx_at_Eol

declare rx_at.simps(2) [simp del]

lemma first_some_mem: "first_some f ks = Some y \<Longrightarrow> \<exists>k \<in> set ks. f k = Some y"
  by (induction ks) (auto split: option.splits)

lemma first_some_skip: "\<forall>j \<in> set js. f j = None \<Longrightarrow> first_some f (js @ ks) = first_some f ks"
  by (induction js) auto

lemma first_some_None: "(first_some f ks = None) = (\<forall>k \<in> set ks. f k = None)"
  by (induction ks) (auto split: option.splits)

lemma first_some_first:
  "\<forall>j \<in> set js. f j = None \<Longrightarrow> f k = Some y \<Longrightarrow> first_some f (js @ k # ks) = Some y"
  by (simp add: first_some_skip)

text \<open>A run of literals matches its text and nothing else.\<close>

definition prev_of :: "nat option \<Rightarrow> jsstr \<Rightarrow> nat option" where
  "prev_of prev l = (if l = [] then prev else Some (last l))"

lemma prev_of_Nil [simp]: "prev_of prev [] = prev"
  by (simp add: prev_of_def)

lemma prev_of_Cons [simp]: "prev_of prev (c # l) = prev_of (Some c) l"
  by (simp add: prev_of_def)

lemma prev_of_append [simp]: "prev_of prev (a @ b) = prev_of (prev_of prev a) b"
  by (simp add: prev_of_def)

lemma rx_at_lits:
  "rx_at ml (lits l @ r) prev s =
     (if take (length l) s = l then rx_at ml r (prev_of prev l) (drop (length l) s) else None)"
proof (induction l arbitrary: prev s)
  case Nil
  then show ?case by (simp add: lits_def)
next
  case (Cons c l)
  have "rx_at ml (lits (c # l) @ r) prev s = rx_at ml (Lit c # (lits l @ r)) prev s"
    by (simp add: lits_def)
  also have "\<dots> = (if take (length (c # l)) s = c # l
        then rx_at ml r (prev_of prev (c # l)) (drop (length (c # l)) s) else None)"
    by (cases s) (auto simp: rx_at_Lit Cons.IH)
  finally show ?case .
qed

lemma rx_at_lits_end:
  "rx_at ml (lits l) prev s = (if take (length l) s = l then Some [drop (length l) s] else None)"
  using rx_at_lits [of ml l "[]" prev s] by simp

lemma prev_after_eq: "k \<le> length s \<Longrightarrow> prev_after prev s k = prev_of prev (take k s)"
  by (cases k) (auto simp: prev_after_def prev_of_def last_conv_nth min_def)

text \<open>The search for the leftmost match.\<close>

lemma rx_search_sound:
  "rx_search ml r prev s = Some (s', m) \<Longrightarrow>
     \<exists>pre. s = pre @ s' \<and> rx_at ml r (prev_of prev pre) s' = Some m"
proof (induction s arbitrary: prev)
  case Nil
  then show ?case by auto
next
  case (Cons c cs)
  show ?case
  proof (cases "rx_at ml r prev (c # cs)")
    case (Some marks)
    with Cons.prems have "s' = c # cs" "m = marks" by simp_all
    with Some have "c # cs = [] @ s' \<and> rx_at ml r (prev_of prev []) s' = Some m" by simp
    then show ?thesis by blast
  next
    case None
    with Cons.prems have "rx_search ml r (Some c) cs = Some (s', m)" by simp
    from Cons.IH [OF this] obtain pre where "cs = pre @ s'"
      and "rx_at ml r (prev_of (Some c) pre) s' = Some m" by blast
    then have "c # cs = (c # pre) @ s' \<and> rx_at ml r (prev_of prev (c # pre)) s' = Some m"
      by simp
    then show ?thesis by blast
  qed
qed

lemma rx_search_first:
  assumes "\<forall>j < length pre. rx_at ml r (prev_of prev (take j pre)) (drop j pre @ s') = None"
    and "rx_at ml r (prev_of prev pre) s' = Some m"
  shows "rx_search ml r prev (pre @ s') = Some (s', m)"
  using assms
proof (induction pre arbitrary: prev)
  case Nil
  then show ?case by (cases s') simp_all
next
  case (Cons c pre)
  from Cons.prems(1) have "rx_at ml r (prev_of prev (take 0 (c # pre))) (drop 0 (c # pre) @ s') = None"
    by blast
  then have none: "rx_at ml r prev (c # pre @ s') = None" by simp
  have "\<forall>j < length pre. rx_at ml r (prev_of (Some c) (take j pre)) (drop j pre @ s') = None"
  proof (intro allI impI)
    fix j assume "j < length pre"
    then have "Suc j < length (c # pre)" by simp
    with Cons.prems(1)
    have "rx_at ml r (prev_of prev (take (Suc j) (c # pre))) (drop (Suc j) (c # pre) @ s') = None"
      by blast
    then show "rx_at ml r (prev_of (Some c) (take j pre)) (drop j pre @ s') = None" by simp
  qed
  moreover have "rx_at ml r (prev_of (Some c) pre) s' = Some m"
    using Cons.prems(2) by simp
  ultimately have "rx_search ml r (Some c) (pre @ s') = Some (s', m)"
    by (rule Cons.IH)
  with none show ?case by simp
qed

lemma rx_search_None:
  assumes "\<forall>j \<le> length s. rx_at ml r (prev_of prev (take j s)) (drop j s) = None"
  shows "rx_search ml r prev s = None"
  using assms
proof (induction s arbitrary: prev)
  case Nil
  then show ?case by simp
next
  case (Cons c cs)
  from Cons.prems have "rx_at ml r (prev_of prev (take 0 (c # cs))) (drop 0 (c # cs)) = None"
    by blast
  then have none: "rx_at ml r prev (c # cs) = None" by simp
  have "\<forall>j \<le> length cs. rx_at ml r (prev_of (Some c) (take j cs)) (drop j cs) = None"
  proof (intro allI impI)
    fix j assume "j \<le> length cs"
    then have "Suc j \<le> length (c # cs)" by simp
    with Cons.prems
    have "rx_at ml r (prev_of prev (take (Suc j) (c # cs))) (drop (Suc j) (c # cs)) = None"
      by blast
    then show "rx_at ml r (prev_of (Some c) (take j cs)) (drop j cs) = None" by simp
  qed
  then have "rx_search ml r (Some c) cs = None" by (rule Cons.IH)
  with none show ?case by simp
qed

section \<open>The frontmatter of a marker file\<close>

text \<open>The opening fence with its line break, and the line break with the closing fence.\<close>

definition fence_open :: jsstr where
  "fence_open = ascii ''---'' @ [10]"

definition fence_close :: jsstr where
  "fence_close = [10] @ ascii ''---''"

text \<open>A text has a frontmatter block when it starts with the opening fence and the
  closing fence follows somewhere behind it.\<close>

definition has_block :: "jsstr \<Rightarrow> bool" where
  "has_block content = (\<exists>fm rest. content = fence_open @ fm @ fence_close @ rest)"

text \<open>Some line of the text starts with the key: the key stands at the start of the
  text or behind a line terminator.\<close>

definition line_starts :: "jsstr \<Rightarrow> jsstr \<Rightarrow> bool" where
  "line_starts text key =
     (\<exists>pre post. text = pre @ key @ post \<and> (pre = [] \<or> is_line_term (last pre)))"

lemma first_some_split:
  "first_some f ks = Some y \<Longrightarrow>
     \<exists>js k ks'. ks = js @ k # ks' \<and> f k = Some y \<and> (\<forall>j \<in> set js. f j = None)"
proof (induction ks)
  case Nil
  then show ?case by simp
next
  case (Cons a ks)
  show ?case
  proof (cases "f a")
    case None
    with Cons.prems have "first_some f ks = Some y" by simp
    from Cons.IH [OF this] obtain js k ks' where
      "ks = js @ k # ks'" "f k = Some y" "\<forall>j \<in> set js. f j = None" by blast
    with None have "a # ks = (a # js) @ k # ks' \<and> f k = Some y \<and> (\<forall>j \<in> set (a # js). f j = None)"
      by simp
    then show ?thesis by blast
  next
    case (Some z)
    with Cons.prems have "a # ks = [] @ a # ks \<and> f a = Some y \<and> (\<forall>j \<in> set []. f j = None)"
      by simp
    then show ?thesis by blast
  qed
qed

lemma first_some_upt:
  assumes "first_some f [lo..<n] = Some y"
  shows "\<exists>k. lo \<le> k \<and> k < n \<and> f k = Some y \<and> (\<forall>j. lo \<le> j \<and> j < k \<longrightarrow> f j = None)"
proof -
  from first_some_split [OF assms] obtain js k ks' where
    split: "[lo..<n] = js @ k # ks'" and fk: "f k = Some y" and none: "\<forall>j \<in> set js. f j = None"
    by blast
  have len: "length js < n - lo"
    using arg_cong [OF split, of length] by simp
  have k: "k = lo + length js"
    using arg_cong [OF split, of "\<lambda>l. l ! length js"] len by (simp add: nth_append)
  have js: "js = [lo..<lo + length js]"
  proof -
    have "take (length js) [lo..<n] = js" using split by simp
    then show ?thesis using len by (simp add: take_upt)
  qed
  have "\<forall>j. lo \<le> j \<and> j < k \<longrightarrow> f j = None"
  proof (intro allI impI)
    fix j assume "lo \<le> j \<and> j < k"
    then have "j \<in> set [lo..<lo + length js]" using k by simp
    with js have "j \<in> set js" by simp
    with none show "f j = None" by blast
  qed
  moreover have "lo \<le> k" "k < n" using k len by arith+
  ultimately show ?thesis using fk by blast
qed

lemma fm_tail_at:
  "rx_at ml (GClose # lits fence_close) prev u =
     (if take (length fence_close) u = fence_close
      then Some [u, drop (length fence_close) u] else None)"
  by (simp add: rx_at_GClose rx_at_lits_end)

lemma rx_frontmatter_unfold:
  "rx_frontmatter =
     Bol # (lits fence_open @ (GOpen # Rep False 0 None is_any # GClose # lits fence_close))"
  by (simp add: rx_frontmatter_def lits_def fence_open_def fence_close_def)

lemma takeWhile_is_any [simp]: "takeWhile is_any s = s"
  by (induction s) (simp_all add: is_any_def)

lemma prev_of_None_iff: "(prev_of None pre = None) = (pre = [])"
  by (simp add: prev_of_def)

lemma frontmatter_match:
  assumes "rx_match False rx_frontmatter content = Some match"
  shows "\<exists>rest. content = fence_open @ group1 (snd match) @ fence_close @ rest
    \<and> (\<forall>fm' rest'. content = fence_open @ fm' @ fence_close @ rest'
          \<longrightarrow> length (group1 (snd match)) \<le> length fm')"
proof -
  obtain s' m where match: "match = (s', m)" by (cases match)
  from assms have "rx_search False rx_frontmatter None content = Some (s', m)"
    by (simp add: rx_match_def match)
  from rx_search_sound [OF this] obtain pre where
    c: "content = pre @ s'" and at: "rx_at False rx_frontmatter (prev_of None pre) s' = Some m"
    by blast
  have "at_bol False (prev_of None pre)"
    using at by (simp add: rx_frontmatter_unfold rx_at_Bol split: if_splits)
  then have "pre = []"
    by (cases pre) (simp_all add: at_bol_def prev_of_def)
  with c at have at0: "rx_at False rx_frontmatter None content = Some m" by simp
  let ?tail = "GClose # lits fence_close"
  from at0 have pre3: "take (length fence_open) content = fence_open"
    and at2: "rx_at False (GOpen # Rep False 0 None is_any # ?tail)
                (prev_of None fence_open) (drop (length fence_open) content) = Some m"
    by (simp_all add: rx_frontmatter_unfold rx_at_Bol rx_at_lits at_bol_def split: if_splits)
  define s1 where "s1 = drop (length fence_open) content"
  define p1 where "p1 = prev_of None fence_open"
  have content: "content = fence_open @ s1"
    using pre3 append_take_drop_id [of "length fence_open" content] by (simp add: s1_def)
  from at2 obtain m1 where m: "m = s1 # m1"
    and at3: "rx_at False (Rep False 0 None is_any # ?tail) p1 s1 = Some m1"
    unfolding s1_def [symmetric] p1_def [symmetric] by (auto simp: rx_at_GOpen)
  let ?f = "\<lambda>k. rx_at False ?tail (prev_after p1 s1 k) (drop k s1)"
  from at3 have "first_some ?f [0..<Suc (length s1)] = Some m1"
    by (simp add: rx_at_Rep rep_counts_def Let_def del: upt_Suc)
  from first_some_upt [OF this] obtain k where k: "k < Suc (length s1)"
    and fk: "?f k = Some m1" and least: "\<forall>j. 0 \<le> j \<and> j < k \<longrightarrow> ?f j = None"
    by blast
  let ?n = "length fence_close"
  from fk have t: "take ?n (drop k s1) = fence_close"
    and m1: "m1 = [drop k s1, drop ?n (drop k s1)]"
    by (simp_all add: fm_tail_at split: if_splits)
  have g: "group1 (snd match) = take k s1"
    using k by (simp add: match m m1 group1_def between_def)
  have s1: "s1 = take k s1 @ fence_close @ drop ?n (drop k s1)"
    using t append_take_drop_id [of ?n "drop k s1"] append_take_drop_id [of k s1] by metis
  have dec: "content = fence_open @ group1 (snd match) @ fence_close @ drop ?n (drop k s1)"
    unfolding g using content s1 by simp
  have min: "\<forall>fm' rest'. content = fence_open @ fm' @ fence_close @ rest'
          \<longrightarrow> length (group1 (snd match)) \<le> length fm'"
  proof (intro allI impI)
    fix fm' rest' assume "content = fence_open @ fm' @ fence_close @ rest'"
    with content have s1': "s1 = fm' @ fence_close @ rest'" by simp
    show "length (group1 (snd match)) \<le> length fm'"
    proof (rule ccontr)
      assume "\<not> length (group1 (snd match)) \<le> length fm'"
      then have lt: "length fm' < k" using g k by simp
      with least have "?f (length fm') = None" by simp
      moreover have "take ?n (drop (length fm') s1) = fence_close"
        by (simp add: s1')
      ultimately show False by (simp add: fm_tail_at)
    qed
  qed
  from dec min show ?thesis by blast
qed

lemma no_block_no_match:
  "\<not> has_block content \<Longrightarrow> rx_match False rx_frontmatter content = None"
proof (rule ccontr)
  assume nb: "\<not> has_block content" and "rx_match False rx_frontmatter content \<noteq> None"
  then obtain match where "rx_match False rx_frontmatter content = Some match" by auto
  from frontmatter_match [OF this] have "has_block content"
    unfolding has_block_def by blast
  with nb show False by simp
qed

lemma key_line_absent:
  assumes "\<not> line_starts text key"
  shows "rx_match True (Bol # (lits key @ r)) text = None"
proof (rule ccontr)
  assume "rx_match True (Bol # (lits key @ r)) text \<noteq> None"
  then obtain s' m where "rx_search True (Bol # (lits key @ r)) None text = Some (s', m)"
    by (auto simp: rx_match_def)
  from rx_search_sound [OF this] obtain pre where
    t: "text = pre @ s'" and at: "rx_at True (Bol # (lits key @ r)) (prev_of None pre) s' = Some m"
    by blast
  from at have bol: "at_bol True (prev_of None pre)" and key: "take (length key) s' = key"
    by (simp_all add: rx_at_Bol rx_at_lits split: if_splits)
  from bol have "pre = [] \<or> is_line_term (last pre)"
    by (cases "pre = []") (simp_all add: at_bol_def prev_of_def)
  moreover have "text = pre @ key @ drop (length key) s'"
    using t key append_take_drop_id [of "length key" s'] by simp
  ultimately have "line_starts text key" unfolding line_starts_def by blast
  with assms show False by simp
qed

lemma line_starts_prefix:
  assumes "line_starts a key" shows "line_starts (a @ b) key"
proof -
  from assms obtain pre post where "a = pre @ key @ post" "pre = [] \<or> is_line_term (last pre)"
    unfolding line_starts_def by blast
  then have "a @ b = pre @ key @ (post @ b) \<and> (pre = [] \<or> is_line_term (last pre))" by simp
  then show ?thesis unfolding line_starts_def by blast
qed

lemma block_prefix:
  assumes "content = fence_open @ fm0 @ fence_close @ rest0"
    and "content = fence_open @ fm @ fence_close @ rest"
    and "length fm0 \<le> length fm"
  shows "\<exists>b. fm = fm0 @ b"
proof -
  from assms(1,2) have "fm0 @ (fence_close @ rest0) = fm @ (fence_close @ rest)" by simp
  with assms(3) have "take (length fm0) fm = fm0"
    by (metis append_eq_append_conv_if)
  then have "fm = fm0 @ drop (length fm0) fm"
    by (metis append_take_drop_id)
  then show ?thesis ..
qed

lemma rx_name_line_unfold:
  "rx_name_line = Bol # (lits (ascii ''name:'')
     @ [Rep True 0 None is_space, GOpen, Rep True 1 None is_dot, GClose, Eol])"
  by (simp add: rx_name_line_def)

lemma rx_description_line_unfold:
  "rx_description_line = Bol # (lits (ascii ''description:'')
     @ [Rep True 0 None is_space, Rep True 0 (Some 1) is_quote, GOpen,
        Rep False 1 None is_dot, GClose, Rep True 0 (Some 1) is_quote,
        Rep True 0 None is_space, Eol])"
  by (simp add: rx_description_line_def)

text \<open>The same, as a scan of the text that the simplifier can run.\<close>

fun starts_from :: "nat option \<Rightarrow> jsstr \<Rightarrow> jsstr \<Rightarrow> bool" where
  "starts_from prev [] key = (key = [] \<and> at_bol True prev)"
| "starts_from prev (c # cs) key =
     ((at_bol True prev \<and> take (length key) (c # cs) = key) \<or> starts_from (Some c) cs key)"

lemma starts_from_iff:
  "starts_from prev s key =
     (\<exists>pre post. s = pre @ key @ post \<and> at_bol True (prev_of prev pre))"
proof (induction s arbitrary: prev)
  case Nil
  then show ?case by auto
next
  case (Cons c cs)
  show ?case
  proof
    assume "starts_from prev (c # cs) key"
    then consider "at_bol True prev \<and> take (length key) (c # cs) = key"
      | "starts_from (Some c) cs key" by auto
    then show "\<exists>pre post. c # cs = pre @ key @ post \<and> at_bol True (prev_of prev pre)"
    proof cases
      case 1
      then have "c # cs = [] @ key @ drop (length key) (c # cs) \<and> at_bol True (prev_of prev [])"
        by (metis append_Nil append_take_drop_id prev_of_Nil)
      then show ?thesis by blast
    next
      case 2
      with Cons.IH obtain pre post where "cs = pre @ key @ post"
        "at_bol True (prev_of (Some c) pre)" by blast
      then have "c # cs = (c # pre) @ key @ post \<and> at_bol True (prev_of prev (c # pre))"
        by simp
      then show ?thesis by blast
    qed
  next
    assume "\<exists>pre post. c # cs = pre @ key @ post \<and> at_bol True (prev_of prev pre)"
    then obtain pre post where d: "c # cs = pre @ key @ post" and b: "at_bol True (prev_of prev pre)"
      by blast
    show "starts_from prev (c # cs) key"
    proof (cases pre)
      case Nil
      with d b have "at_bol True prev \<and> take (length key) (c # cs) = key" by simp
      then show ?thesis by simp
    next
      case (Cons p pre')
      with d b have "cs = pre' @ key @ post" "at_bol True (prev_of (Some c) pre')" by simp_all
      with Cons.IH have "starts_from (Some c) cs key" by blast
      then show ?thesis by simp
    qed
  qed
qed

lemma line_starts_code: "line_starts s key = starts_from None s key"
proof -
  have "at_bol True (prev_of None pre) = (pre = [] \<or> is_line_term (last pre))" for pre
    by (simp add: at_bol_def prev_of_def)
  then show ?thesis by (simp add: line_starts_def starts_from_iff)
qed


text \<open>A skill directory \<^verbatim>\<open>x\<close> with a marker file of the given text.\<close>

definition skill_dir :: "jsstr \<Rightarrow> node" where
  "skill_dir content = Dir [(ascii ''x'', Dir [(ascii ''SKILL.md'', File content)])]"

definition description_only :: jsstr where
  "description_only = fence_open @ ascii ''description: hi'' @ fence_close @ [10]"

definition name_only :: jsstr where
  "name_only = fence_open @ ascii ''name: foo'' @ fence_close @ [10]"

lemmas rx_run = rx_at.simps rx_search.simps first_some.simps

lemma skill_dir_read:
  "readFileSync (skill_dir content) [ascii ''x'', ascii ''SKILL.md''] = Inr content"
  by (simp add: skill_dir_def readFileSync_def)

lemma description_only_meta:
  "parseSkillMetadata (skill_dir description_only) [ascii ''x'', ascii ''SKILL.md'']
     = Inr \<lparr>meta_name = ascii ''x'', meta_description = ascii ''hi''\<rparr>"
  by (simp add: skill_dir_def description_only_def fence_open_def fence_close_def
      meta_eval str_eval rx_eval fs_eval rx_run Let_def)

lemma name_only_meta:
  "parseSkillMetadata (skill_dir name_only) [ascii ''x'', ascii ''SKILL.md'']
     = Inr \<lparr>meta_name = ascii ''foo'', meta_description = []\<rparr>"
  by (simp add: skill_dir_def name_only_def fence_open_def fence_close_def
      meta_eval str_eval rx_eval fs_eval rx_run Let_def)


text \<open>A marker file whose two values stand in double quotes.\<close>

definition quoted_fields :: jsstr where
  "quoted_fields =
     fence_open @ ascii ''name: '' @ [34] @ ascii ''foo'' @ [34] @ [10]
     @ ascii ''description: '' @ [34] @ ascii ''hi'' @ [34] @ fence_close @ [10]"

text \<open>
  C5. The claim strips the quotes around the value of either field. The pattern of the
  description has an optional quote on each side of its group, \<^verbatim>\<open>["']?(.+?)["']?\<close>; the
  pattern of the name, two lines above it, has none, \<^verbatim>\<open>(.+)\<close>, and \<^verbatim>\<open>trim\<close> removes white
  space only. For the file \<open>quoted_fields\<close>, with \<^verbatim>\<open>name: "foo"\<close> and
  \<^verbatim>\<open>description: "hi"\<close>, the claim returns the name \<^verbatim>\<open>foo\<close>; the function returns the
  description \<^verbatim>\<open>hi\<close> and the name with its two quotes.
\<close>

theorem name_keeps_its_quotes:
  "readFileSync (skill_dir quoted_fields) [ascii ''x'', ascii ''SKILL.md''] = Inr quoted_fields
   \<and> parseSkillMetadata (skill_dir quoted_fields) [ascii ''x'', ascii ''SKILL.md'']
        = Inr \<lparr>meta_name = [34] @ ascii ''foo'' @ [34], meta_description = ascii ''hi''\<rparr>"
proof -
  have "parseSkillMetadata (skill_dir quoted_fields) [ascii ''x'', ascii ''SKILL.md'']
        = Inr \<lparr>meta_name = [34] @ ascii ''foo'' @ [34], meta_description = ascii ''hi''\<rparr>"
    by (simp add: skill_dir_def quoted_fields_def fence_open_def fence_close_def
        meta_eval str_eval rx_eval fs_eval rx_run Let_def)
  with skill_dir_read show ?thesis by blast
qed

end
